theory Spec2Isabelle
  imports Complex_Main "HOL-Library.Word"
begin

section \<open>JavaScript strings\<close>

text \<open>
  A JavaScript string is a sequence of 16-bit code units. String literals of the source
  are ASCII and are written through \<open>js\<close>.
\<close>

type_synonym jschar = "16 word"
type_synonym jsstring = "jschar list"

definition js :: "string \<Rightarrow> jsstring" where
  "js s = map of_char s"

section \<open>Errors\<close>

text \<open>
  An exception is a value: a function that can throw returns \<open>Inl\<close> of the error or
  \<open>Inr\<close> of its result, and \<open>then_result\<close> runs the rest of a body after a step that
  did not throw.
\<close>

datatype js_error =
    SyntaxError
  | TypeError
  | RangeError
  | QuotaExceededError
  | InvalidCharacterError
  | OperationError
  | Error jsstring

fun then_result :: "'e + 'a \<Rightarrow> ('a \<Rightarrow> 'e + 'b) \<Rightarrow> 'e + 'b" where
  "then_result (Inl e) f = Inl e"
| "then_result (Inr x) f = f x"

section \<open>Password generator (\<open>generateSecurePassword\<close>)\<close>

record PasswordOptions =
  length_opt :: nat
  includeNumbers :: bool
  includeSymbols :: bool
  excludeAmbiguous :: bool

definition lowercase :: jsstring where
  "lowercase = js ''abcdefghijklmnopqrstuvwxyz''"

definition uppercase :: jsstring where
  "uppercase = js ''ABCDEFGHIJKLMNOPQRSTUVWXYZ''"

definition numbers :: jsstring where
  "numbers = js ''0123456789''"

definition symbols :: jsstring where
  "symbols = js ''!@#$%^&*()_+-=[]{}|;:,.<>?''"

definition ambiguous :: jsstring where
  "ambiguous = js ''il1Lo0O''"

text \<open>
  The first half of \<open>generateSecurePassword\<close>: the character set is the letters, then the
  digits and the symbols on request, and the ambiguous characters are filtered out last.
\<close>

definition build_charset :: "PasswordOptions \<Rightarrow> jsstring" where
  "build_charset options =
     (let charset = lowercase @ uppercase;
          charset = (if includeNumbers options then charset @ numbers else charset);
          charset = (if includeSymbols options then charset @ symbols else charset)
      in if excludeAmbiguous options
         then filter (\<lambda>c. c \<notin> set ambiguous) charset
         else charset)"

text \<open>
  One step of the loop, \<open>charset[randomValues[i] % charset.length]\<close>. On an empty
  character set the remainder is \<open>NaN\<close>, the index reads \<open>undefined\<close>, and the string
  concatenation appends the text of \<open>undefined\<close>.
\<close>

definition select_char :: "jsstring \<Rightarrow> 32 word \<Rightarrow> jsstring" where
  "select_char charset u =
     (if charset = [] then js ''undefined''
      else [charset ! (unat u mod length charset)])"

text \<open>
  \<open>new Uint32Array(length)\<close> is a \<open>RangeError\<close> for a length above \<open>2 ^ 53 - 1\<close>
  (an engine refuses, with the same error, a smaller length that it cannot allocate).
\<close>

definition new_Uint32Array :: "nat \<Rightarrow> js_error + nat" where
  "new_Uint32Array n = (if 2 ^ 53 - 1 < n then Inl RangeError else Inr n)"

text \<open>
  \<open>crypto.getRandomValues\<close> on an array of \<open>n\<close> 32-bit words: more than 65536 bytes is
  a \<open>QuotaExceededError\<close>. The random fill is an input: \<open>random i\<close> is the word that the
  call leaves at index \<open>i\<close>.
\<close>

definition getRandomValues :: "nat \<Rightarrow> (nat \<Rightarrow> 32 word) \<Rightarrow> js_error + (nat \<Rightarrow> 32 word)" where
  "getRandomValues n random = (if 65536 < 4 * n then Inl QuotaExceededError else Inr random)"

text \<open>The loop \<open>for (let i = 0; i < options.length; i++) password += ...\<close>.\<close>

definition password_loop :: "jsstring \<Rightarrow> (nat \<Rightarrow> 32 word) \<Rightarrow> nat \<Rightarrow> jsstring" where
  "password_loop charset randomValues n =
     foldl (\<lambda>password i. password @ select_char charset (randomValues i)) [] [0..<n]"

definition generateSecurePassword ::
  "PasswordOptions \<Rightarrow> (nat \<Rightarrow> 32 word) \<Rightarrow> js_error + jsstring"
where
  "generateSecurePassword options random =
     (let charset = build_charset options
      in then_result (new_Uint32Array (length_opt options)) (\<lambda>n.
         then_result (getRandomValues n random) (\<lambda>randomValues.
           Inr (password_loop charset randomValues (length_opt options)))))"

text \<open>The number of 32-bit words for which the selection step yields the character \<open>c\<close>.\<close>

definition pick_count :: "jsstring \<Rightarrow> jschar \<Rightarrow> nat" where
  "pick_count charset c = card {u :: 32 word. select_char charset u = [c]}"

section \<open>JavaScript numbers\<close>

text \<open>
  A JavaScript number is an IEEE double. The model keeps the exact real value of every
  finite arithmetic result, so rounding to 53 bits and underflow are left out there, and
  it writes out the values that are not finite: a result of magnitude
  \<open>2 ^ 1024 - 2 ^ 970\<close> or more (the largest double plus half a unit in the last place)
  is an infinity. The two zeros are one value.
\<close>

datatype number = Finite real | PosInf | NegInf | NaN

definition max_double_bound :: real where
  "max_double_bound = 2 ^ 1024 - 2 ^ 970"

definition fl :: "real \<Rightarrow> number" where
  "fl x = (if max_double_bound \<le> x then PosInf
           else if x \<le> - max_double_bound then NegInf
           else Finite x)"

text \<open>\<open>Math.pow\<close>, by the cases of the language standard.\<close>

fun Math_pow :: "number \<Rightarrow> number \<Rightarrow> number" where
  "Math_pow b NaN = NaN"
| "Math_pow b (Finite y) =
     (if y = 0 then Finite 1
      else case b of
        NaN \<Rightarrow> NaN
      | PosInf \<Rightarrow> (if 0 < y then PosInf else Finite 0)
      | NegInf \<Rightarrow>
          (if 0 < y then (if y \<in> \<int> \<and> odd \<lfloor>y\<rfloor> then NegInf else PosInf) else Finite 0)
      | Finite x \<Rightarrow>
          (if x = 0 then (if 0 < y then Finite 0 else PosInf)
           else if 0 < x then fl (x powr y)
           else if y \<in> \<int> then fl ((if odd \<lfloor>y\<rfloor> then - 1 else 1) * (\<bar>x\<bar> powr y))
           else NaN))"
| "Math_pow b PosInf =
     (case b of
        NaN \<Rightarrow> NaN
      | PosInf \<Rightarrow> PosInf
      | NegInf \<Rightarrow> PosInf
      | Finite x \<Rightarrow> (if 1 < \<bar>x\<bar> then PosInf else if \<bar>x\<bar> = 1 then NaN else Finite 0))"
| "Math_pow b NegInf =
     (case b of
        NaN \<Rightarrow> NaN
      | PosInf \<Rightarrow> Finite 0
      | NegInf \<Rightarrow> Finite 0
      | Finite x \<Rightarrow> (if 1 < \<bar>x\<bar> then Finite 0 else if \<bar>x\<bar> = 1 then NaN else PosInf))"

fun Math_log2 :: "number \<Rightarrow> number" where
  "Math_log2 NaN = NaN"
| "Math_log2 NegInf = NaN"
| "Math_log2 PosInf = PosInf"
| "Math_log2 (Finite x) =
     (if x < 0 then NaN else if x = 0 then NegInf else Finite (log 2 x))"

fun Math_round :: "number \<Rightarrow> number" where
  "Math_round (Finite x) = Finite (of_int \<lfloor>x + 1 / 2\<rfloor>)"
| "Math_round v = v"

fun js_less :: "number \<Rightarrow> number \<Rightarrow> bool" where
  "js_less NaN _ = False"
| "js_less _ NaN = False"
| "js_less (Finite x) (Finite y) = (x < y)"
| "js_less (Finite x) PosInf = True"
| "js_less (Finite x) NegInf = False"
| "js_less PosInf _ = False"
| "js_less NegInf NegInf = False"
| "js_less NegInf _ = True"

fun js_times :: "number \<Rightarrow> number \<Rightarrow> number" where
  "js_times NaN _ = NaN"
| "js_times _ NaN = NaN"
| "js_times (Finite x) (Finite y) = fl (x * y)"
| "js_times (Finite x) PosInf = (if x = 0 then NaN else if 0 < x then PosInf else NegInf)"
| "js_times (Finite x) NegInf = (if x = 0 then NaN else if 0 < x then NegInf else PosInf)"
| "js_times PosInf (Finite y) = (if y = 0 then NaN else if 0 < y then PosInf else NegInf)"
| "js_times NegInf (Finite y) = (if y = 0 then NaN else if 0 < y then NegInf else PosInf)"
| "js_times PosInf PosInf = PosInf"
| "js_times PosInf NegInf = NegInf"
| "js_times NegInf PosInf = NegInf"
| "js_times NegInf NegInf = PosInf"

fun js_divide :: "number \<Rightarrow> number \<Rightarrow> number" where
  "js_divide NaN _ = NaN"
| "js_divide _ NaN = NaN"
| "js_divide (Finite x) (Finite y) =
     (if y = 0 then (if x = 0 then NaN else if 0 < x then PosInf else NegInf)
      else fl (x / y))"
| "js_divide (Finite x) PosInf = Finite 0"
| "js_divide (Finite x) NegInf = Finite 0"
| "js_divide PosInf (Finite y) = (if 0 \<le> y then PosInf else NegInf)"
| "js_divide NegInf (Finite y) = (if 0 \<le> y then NegInf else PosInf)"
| "js_divide PosInf _ = NaN"
| "js_divide NegInf _ = NaN"

section \<open>Strength estimator (\<open>calculatePasswordEntropy\<close>, \<open>estimateTimeToCrack\<close>)\<close>

text \<open>
  \<open>/[...]/.test(password)\<close> for a character class: some code unit of the string is in
  the class. The four classes of the source are \<open>[a-z]\<close>, \<open>[A-Z]\<close>, \<open>[0-9]\<close> and
  \<open>[^a-zA-Z0-9]\<close>.
\<close>

definition regex_test :: "(jschar \<Rightarrow> bool) \<Rightarrow> jsstring \<Rightarrow> bool" where
  "regex_test cls s = list_ex cls s"

definition is_lower :: "jschar \<Rightarrow> bool" where
  "is_lower c = (0x61 \<le> c \<and> c \<le> 0x7A)"

definition is_upper :: "jschar \<Rightarrow> bool" where
  "is_upper c = (0x41 \<le> c \<and> c \<le> 0x5A)"

definition is_digit :: "jschar \<Rightarrow> bool" where
  "is_digit c = (0x30 \<le> c \<and> c \<le> 0x39)"

definition is_other :: "jschar \<Rightarrow> bool" where
  "is_other c = (\<not> is_lower c \<and> \<not> is_upper c \<and> \<not> is_digit c)"

text \<open>The value of \<open>charsetSize\<close> after the four tests of \<open>calculatePasswordEntropy\<close>.\<close>

definition charsetSize_of :: "jsstring \<Rightarrow> nat" where
  "charsetSize_of password =
     (let charsetSize = 0;
          charsetSize = (if regex_test is_lower password then charsetSize + 26 else charsetSize);
          charsetSize = (if regex_test is_upper password then charsetSize + 26 else charsetSize);
          charsetSize = (if regex_test is_digit password then charsetSize + 10 else charsetSize);
          charsetSize = (if regex_test is_other password then charsetSize + 32 else charsetSize)
      in charsetSize)"

definition calculatePasswordEntropy :: "jsstring \<Rightarrow> number" where
  "calculatePasswordEntropy password =
     Math_log2 (Math_pow (Finite (real (charsetSize_of password)))
                         (Finite (real (length password))))"

datatype strength = VeryWeak | Weak | Moderate | Strong | VeryStrong

text \<open>
  The text \<open>timeToCrack\<close> is \<open>Instantly\<close> or a rounded number followed by a unit; the
  model keeps the number and the unit.
\<close>

datatype timeText = Instantly | Days number | Years number | KYears number | MYears number

record crackEstimate =
  entropy :: number
  timeToCrack :: timeText
  strength :: strength

text \<open>\<open>yearsToCrack\<close> as \<open>estimateTimeToCrack\<close> computes it from the entropy.\<close>

definition yearsToCrack_of :: "number \<Rightarrow> number" where
  "yearsToCrack_of entropy' =
     (let guessesPerSecond = Finite 1000000000;
          secondsToCrack = js_divide (Math_pow (Finite 2) entropy') guessesPerSecond
      in js_divide secondsToCrack (Finite (365.25 * 24 * 60 * 60)))"

text \<open>The chain of comparisons of \<open>estimateTimeToCrack\<close> on \<open>yearsToCrack\<close>.\<close>

definition classify_years :: "number \<Rightarrow> timeText \<times> strength" where
  "classify_years yearsToCrack =
     (if js_less yearsToCrack (Finite (1 / 1000)) then (Instantly, VeryWeak)
      else if js_less yearsToCrack (Finite 1)
        then (Days (Math_round (js_times yearsToCrack (Finite 365))), Weak)
      else if js_less yearsToCrack (Finite 1000)
        then (Years (Math_round yearsToCrack), Moderate)
      else if js_less yearsToCrack (Finite 1000000)
        then (KYears (Math_round (js_divide yearsToCrack (Finite 1000))), Strong)
      else (MYears (Math_round (js_divide yearsToCrack (Finite 1000000))), VeryStrong))"

definition estimateTimeToCrack :: "jsstring \<Rightarrow> crackEstimate" where
  "estimateTimeToCrack password =
     (let entropy' = calculatePasswordEntropy password;
          yearsToCrack = yearsToCrack_of entropy';
          (timeToCrack', strength') = classify_years yearsToCrack
      in \<lparr>entropy = Math_round entropy', timeToCrack = timeToCrack',
           strength = strength'\<rparr>)"

section \<open>JavaScript values and JSON\<close>

datatype jsval =
    Undefined
  | Null
  | Bool bool
  | Num number
  | Str jsstring
  | Arr "jsval list"
  | Obj "(jsstring \<times> jsval) list"

abbreviation QUOTE :: jschar where "QUOTE \<equiv> 0x22"
abbreviation BACKSLASH :: jschar where "BACKSLASH \<equiv> 0x5C"

definition is_ws :: "jschar \<Rightarrow> bool" where
  "is_ws c = (c = 0x20 \<or> c = 0x09 \<or> c = 0x0A \<or> c = 0x0D)"

fun skip_ws :: "jsstring \<Rightarrow> jsstring" where
  "skip_ws [] = []"
| "skip_ws (c # cs) = (if is_ws c then skip_ws cs else c # cs)"

definition hex_value :: "jschar \<Rightarrow> nat option" where
  "hex_value c =
     (if 0x30 \<le> c \<and> c \<le> 0x39 then Some (unat c - 0x30)
      else if 0x41 \<le> c \<and> c \<le> 0x46 then Some (unat c - 0x41 + 10)
      else if 0x61 \<le> c \<and> c \<le> 0x66 then Some (unat c - 0x61 + 10)
      else None)"

definition hex4 :: "jschar \<Rightarrow> jschar \<Rightarrow> jschar \<Rightarrow> jschar \<Rightarrow> jschar option" where
  "hex4 a b c d =
     (case (hex_value a, hex_value b, hex_value c, hex_value d) of
        (Some h1, Some h2, Some h3, Some h4) \<Rightarrow>
          Some (of_nat (((h1 * 16 + h2) * 16 + h3) * 16 + h4))
      | _ \<Rightarrow> None)"

definition simple_escape :: "jschar \<Rightarrow> jschar option" where
  "simple_escape e =
     (if e = QUOTE then Some QUOTE
      else if e = BACKSLASH then Some BACKSLASH
      else if e = of_char CHR ''/'' then Some (of_char CHR ''/'')
      else if e = of_char CHR ''b'' then Some 0x08
      else if e = of_char CHR ''f'' then Some 0x0C
      else if e = of_char CHR ''n'' then Some 0x0A
      else if e = of_char CHR ''r'' then Some 0x0D
      else if e = of_char CHR ''t'' then Some 0x09
      else None)"

fun cons_result :: "'a \<Rightarrow> ('a list \<times> 'b) option \<Rightarrow> ('a list \<times> 'b) option" where
  "cons_result x None = None"
| "cons_result x (Some (xs, r)) = Some (x # xs, r)"

fun parse_string_chars :: "jsstring \<Rightarrow> (jsstring \<times> jsstring) option" where
  "parse_string_chars [] = None"
| "parse_string_chars (c # cs) =
     (if c = QUOTE then Some ([], cs)
      else if c = BACKSLASH then
        (case cs of
           [] \<Rightarrow> None
         | e # cs' \<Rightarrow>
             if e = of_char CHR ''u'' then
               (case cs' of
                  h1 # h2 # h3 # h4 # cs'' \<Rightarrow>
                    (case hex4 h1 h2 h3 h4 of
                       None \<Rightarrow> None
                     | Some u \<Rightarrow> cons_result u (parse_string_chars cs''))
                | _ \<Rightarrow> None)
             else
               (case simple_escape e of
                  None \<Rightarrow> None
                | Some u \<Rightarrow> cons_result u (parse_string_chars cs')))
      else if c < 0x20 then None
      else cons_result c (parse_string_chars cs))"

definition digits_value :: "jsstring \<Rightarrow> nat" where
  "digits_value ds = foldl (\<lambda>n d. 10 * n + (unat d - 0x30)) 0 ds"

text \<open>number: -? int frac? exp?\<close>

definition parse_exponent :: "jsstring \<Rightarrow> (int \<times> jsstring) option" where
  "parse_exponent s =
     (case s of
        [] \<Rightarrow> Some (0, s)
      | c # r \<Rightarrow>
          if c = of_char CHR ''e'' \<or> c = of_char CHR ''E'' then
            (let (neg, r1) =
                   (case r of
                      [] \<Rightarrow> (False, r)
                    | d # r' \<Rightarrow>
                        if d = of_char CHR ''-'' then (True, r')
                        else if d = of_char CHR ''+'' then (False, r')
                        else (False, r));
                 ds = takeWhile is_digit r1
             in if ds = [] then None
                else Some ((if neg then - int (digits_value ds) else int (digits_value ds)),
                           dropWhile is_digit r1))
          else Some (0, s))"

definition parse_fraction :: "jsstring \<Rightarrow> (jsstring \<times> jsstring) option" where
  "parse_fraction s =
     (case s of
        [] \<Rightarrow> Some ([], s)
      | c # r \<Rightarrow>
          if c = of_char CHR ''.'' then
            (let ds = takeWhile is_digit r
             in if ds = [] then None else Some (ds, dropWhile is_digit r))
          else Some ([], s))"

definition parse_int_part :: "jsstring \<Rightarrow> (jsstring \<times> jsstring) option" where
  "parse_int_part s =
     (case s of
        [] \<Rightarrow> None
      | c # r \<Rightarrow>
          if c = of_char CHR ''0'' then Some ([c], r)
          else if is_digit c then Some (c # takeWhile is_digit r, dropWhile is_digit r)
          else None)"

text \<open>
  The number that a decimal literal denotes. A literal of magnitude at most \<open>2 ^ -1075\<close>
  (half the smallest positive double; the tie goes to the even neighbour) is zero, one of
  magnitude \<open>2 ^ 1024 - 2 ^ 970\<close> or more is an infinity. In between the exact value is
  kept: rounding to 53 bits moves a value to a neighbouring double, never to zero, so it
  does not change whether the number is zero.
\<close>

definition min_double_bound :: real where
  "min_double_bound = 1 / 2 ^ 1075"

definition literal_number :: "real \<Rightarrow> number" where
  "literal_number x = (if \<bar>x\<bar> \<le> min_double_bound then Finite 0 else fl x)"

definition decimal_value :: "bool \<Rightarrow> nat \<Rightarrow> int \<Rightarrow> number" where
  "decimal_value neg m e =
     literal_number ((if neg then - 1 else 1) *
         (if 0 \<le> e then real m * 10 ^ nat e else real m / 10 ^ nat (- e)))"

definition parse_number :: "jsstring \<Rightarrow> (jsval \<times> jsstring) option" where
  "parse_number s =
     (let (neg, s1) = (case s of
                         [] \<Rightarrow> (False, s)
                       | c # r \<Rightarrow> if c = of_char CHR ''-'' then (True, r) else (False, s))
      in case parse_int_part s1 of
           None \<Rightarrow> None
         | Some (ip, s2) \<Rightarrow>
             (case parse_fraction s2 of
                None \<Rightarrow> None
              | Some (fp, s3) \<Rightarrow>
                  (case parse_exponent s3 of
                     None \<Rightarrow> None
                   | Some (ex, s4) \<Rightarrow>
                       Some (Num (decimal_value neg (digits_value (ip @ fp))
                                    (ex - int (length fp))), s4))))"

fun strip_prefix :: "jsstring \<Rightarrow> jsstring \<Rightarrow> jsstring option" where
  "strip_prefix [] s = Some s"
| "strip_prefix (p # ps) [] = None"
| "strip_prefix (p # ps) (c # cs) = (if p = c then strip_prefix ps cs else None)"

text \<open>Property definition: a repeated key keeps its position and takes the later value.\<close>

fun obj_put :: "(jsstring \<times> jsval) list \<Rightarrow> jsstring \<Rightarrow> jsval \<Rightarrow> (jsstring \<times> jsval) list" where
  "obj_put [] k v = [(k, v)]"
| "obj_put ((k', v') # kvs) k v =
     (if k' = k then (k, v) # kvs else (k', v') # obj_put kvs k v)"

lemma length_skip_ws [simp]: "length (skip_ws s) \<le> length s"
  by (induction s) auto

function parse_value :: "jsstring \<Rightarrow> (jsval \<times> jsstring) option"
  and parse_elements :: "jsstring \<Rightarrow> (jsval list \<times> jsstring) option"
  and parse_members :: "jsstring \<Rightarrow> ((jsstring \<times> jsval) list \<times> jsstring) option"
where
  "parse_value [] = None"
| "parse_value (c # r) =
     (if c = of_char CHR ''['' then
        (case skip_ws r of
           [] \<Rightarrow> None
         | d # r' \<Rightarrow>
             if d = of_char CHR '']'' then Some (Arr [], r')
             else (case parse_elements r of
                     None \<Rightarrow> None
                   | Some (vs, r'') \<Rightarrow> Some (Arr vs, r'')))
      else if c = of_char CHR ''{'' then
        (case skip_ws r of
           [] \<Rightarrow> None
         | d # r' \<Rightarrow>
             if d = of_char CHR ''}'' then Some (Obj [], r')
             else (case parse_members r of
                     None \<Rightarrow> None
                   | Some (kvs, r'') \<Rightarrow>
                       Some (Obj (foldl (\<lambda>acc (k, v). obj_put acc k v) [] kvs), r'')))
      else if c = QUOTE then
        (case parse_string_chars r of
           None \<Rightarrow> None
         | Some (s, r') \<Rightarrow> Some (Str s, r'))
      else if c = of_char CHR ''t'' then
        (case strip_prefix (js ''rue'') r of None \<Rightarrow> None | Some r' \<Rightarrow> Some (Bool True, r'))
      else if c = of_char CHR ''f'' then
        (case strip_prefix (js ''alse'') r of None \<Rightarrow> None | Some r' \<Rightarrow> Some (Bool False, r'))
      else if c = of_char CHR ''n'' then
        (case strip_prefix (js ''ull'') r of None \<Rightarrow> None | Some r' \<Rightarrow> Some (Null, r'))
      else parse_number (c # r))"
| "parse_elements s =
     (case parse_value (skip_ws s) of
        None \<Rightarrow> None
      | Some (v, r) \<Rightarrow>
          (case skip_ws r of
             [] \<Rightarrow> None
           | d # r' \<Rightarrow>
               if d = of_char CHR '']'' then Some ([v], r')
               else if d = of_char CHR '','' then
                 (if length r' < length s then cons_result v (parse_elements r') else None)
               else None))"
| "parse_members s =
     (case skip_ws s of
        [] \<Rightarrow> None
      | q # s1 \<Rightarrow>
          if q \<noteq> QUOTE then None
          else (case parse_string_chars s1 of
                  None \<Rightarrow> None
                | Some (k, s2) \<Rightarrow>
                    (case skip_ws s2 of
                       [] \<Rightarrow> None
                     | col # s3 \<Rightarrow>
                         if col \<noteq> of_char CHR '':'' then None
                         else if \<not> length s3 < length s then None
                         else (case parse_value (skip_ws s3) of
                                 None \<Rightarrow> None
                               | Some (v, r) \<Rightarrow>
                                   (case skip_ws r of
                                      [] \<Rightarrow> None
                                    | d # r' \<Rightarrow>
                                        if d = of_char CHR ''}'' then Some ([(k, v)], r')
                                        else if d = of_char CHR '','' then
                                          (if length r' < length s
                                           then cons_result (k, v) (parse_members r')
                                           else None)
                                        else None)))))"
  by pat_completeness auto
termination
proof (relation "measure (\<lambda>x. case x of
        Inl s \<Rightarrow> 2 * length s
      | Inr (Inl s) \<Rightarrow> 2 * length s + 1
      | Inr (Inr s) \<Rightarrow> 2 * length s + 1)", goal_cases)
  case (4 s)
  then show ?case using length_skip_ws [of s] by (simp del: length_skip_ws)
next
  case (6 s q s1 x k s2 col s3)
  then show ?case using length_skip_ws [of s3] by (simp del: length_skip_ws)
qed simp_all

definition JSON_parse :: "jsstring \<Rightarrow> jsval option" where
  "JSON_parse text =
     (case parse_value (skip_ws text) of
        None \<Rightarrow> None
      | Some (v, r) \<Rightarrow> if skip_ws r = [] then Some v else None)"

section \<open>Text encoding\<close>

type_synonym byte = "8 word"

definition is_high_surrogate :: "jschar \<Rightarrow> bool" where
  "is_high_surrogate c = (0xD800 \<le> c \<and> c \<le> 0xDBFF)"

definition is_low_surrogate :: "jschar \<Rightarrow> bool" where
  "is_low_surrogate c = (0xDC00 \<le> c \<and> c \<le> 0xDFFF)"

fun to_scalars :: "jsstring \<Rightarrow> nat list" where
  "to_scalars [] = []"
| "to_scalars [c] =
     (if is_high_surrogate c \<or> is_low_surrogate c then [0xFFFD] else [unat c])"
| "to_scalars (c # d # cs) =
     (if is_high_surrogate c then
        (if is_low_surrogate d
         then (0x10000 + (unat c - 0xD800) * 0x400 + (unat d - 0xDC00)) # to_scalars cs
         else 0xFFFD # to_scalars (d # cs))
      else if is_low_surrogate c then 0xFFFD # to_scalars (d # cs)
      else unat c # to_scalars (d # cs))"

definition utf8_encode_scalar :: "nat \<Rightarrow> nat list" where
  "utf8_encode_scalar cp =
     (if cp < 0x80 then [cp]
      else if cp < 0x800 then [0xC0 + cp div 64, 0x80 + cp mod 64]
      else if cp < 0x10000 then
        [0xE0 + cp div 4096, 0x80 + cp div 64 mod 64, 0x80 + cp mod 64]
      else [0xF0 + cp div 262144, 0x80 + cp div 4096 mod 64, 0x80 + cp div 64 mod 64,
            0x80 + cp mod 64])"

definition TextEncoder_encode :: "jsstring \<Rightarrow> byte list" where
  "TextEncoder_encode s = map of_nat (concat (map utf8_encode_scalar (to_scalars s)))"

function utf8_decoder :: "nat \<Rightarrow> nat \<Rightarrow> nat \<Rightarrow> nat \<Rightarrow> nat \<Rightarrow> nat list \<Rightarrow> nat list" where
  "utf8_decoder cp seen needed lower upper [] = (if needed \<noteq> 0 then [0xFFFD] else [])"
| "utf8_decoder cp seen needed lower upper (b # bs) =
     (if needed = 0 then
        (if b \<le> 0x7F then b # utf8_decoder 0 0 0 0x80 0xBF bs
         else if 0xC2 \<le> b \<and> b \<le> 0xDF then utf8_decoder (b mod 32) 0 1 0x80 0xBF bs
         else if 0xE0 \<le> b \<and> b \<le> 0xEF then
           utf8_decoder (b mod 16) 0 2 (if b = 0xE0 then 0xA0 else 0x80)
             (if b = 0xED then 0x9F else 0xBF) bs
         else if 0xF0 \<le> b \<and> b \<le> 0xF4 then
           utf8_decoder (b mod 8) 0 3 (if b = 0xF0 then 0x90 else 0x80)
             (if b = 0xF4 then 0x8F else 0xBF) bs
         else 0xFFFD # utf8_decoder 0 0 0 0x80 0xBF bs)
      else if b < lower \<or> upper < b then 0xFFFD # utf8_decoder 0 0 0 0x80 0xBF (b # bs)
      else if seen + 1 \<noteq> needed then
        utf8_decoder (cp * 64 + b mod 64) (seen + 1) needed 0x80 0xBF bs
      else (cp * 64 + b mod 64) # utf8_decoder 0 0 0 0x80 0xBF bs)"
  by pat_completeness auto
termination
  by (relation "measure (\<lambda>(cp, seen, needed, lower, upper, bs).
        2 * length bs + (if needed = 0 then 0 else 1))") auto

definition strip_bom :: "nat list \<Rightarrow> nat list" where
  "strip_bom bs = (case bs of
       b1 # b2 # b3 # rest \<Rightarrow>
         if b1 = 0xEF \<and> b2 = 0xBB \<and> b3 = 0xBF then rest else bs
     | _ \<Rightarrow> bs)"

definition utf16_units :: "nat \<Rightarrow> nat list" where
  "utf16_units cp =
     (if cp < 0x10000 then [cp]
      else [0xD800 + (cp - 0x10000) div 0x400, 0xDC00 + (cp - 0x10000) mod 0x400])"

definition TextDecoder_decode :: "byte list \<Rightarrow> jsstring" where
  "TextDecoder_decode bs =
     map of_nat (concat (map utf16_units
       (utf8_decoder 0 0 0 0x80 0xBF (strip_bom (map unat bs)))))"

section \<open>Base64\<close>

definition b64_char :: "nat \<Rightarrow> nat" where
  "b64_char i =
     (if i < 26 then 0x41 + i
      else if i < 52 then 0x61 + (i - 26)
      else if i < 62 then 0x30 + (i - 52)
      else if i = 62 then 0x2B
      else 0x2F)"

definition b64_index :: "nat \<Rightarrow> nat option" where
  "b64_index c =
     (if 0x41 \<le> c \<and> c \<le> 0x5A then Some (c - 0x41)
      else if 0x61 \<le> c \<and> c \<le> 0x7A then Some (c - 0x61 + 26)
      else if 0x30 \<le> c \<and> c \<le> 0x39 then Some (c - 0x30 + 52)
      else if c = 0x2B then Some 62
      else if c = 0x2F then Some 63
      else None)"

fun b64_encode :: "nat list \<Rightarrow> nat list" where
  "b64_encode [] = []"
| "b64_encode [a] = [b64_char (a div 4), b64_char (a mod 4 * 16), 0x3D, 0x3D]"
| "b64_encode [a, b] =
     [b64_char (a div 4), b64_char (a mod 4 * 16 + b div 16), b64_char (b mod 16 * 4), 0x3D]"
| "b64_encode (a # b # c # rest) =
     [b64_char (a div 4), b64_char (a mod 4 * 16 + b div 16),
      b64_char (b mod 16 * 4 + c div 64), b64_char (c mod 64)] @ b64_encode rest"

text \<open>\<open>btoa\<close>: a code unit above 0xFF is an \<open>InvalidCharacterError\<close>.\<close>

definition btoa :: "jsstring \<Rightarrow> js_error + jsstring" where
  "btoa binary =
     (if list_ex (\<lambda>c. 0xFF < c) binary then Inl InvalidCharacterError
      else Inr (map of_nat (b64_encode (map unat binary))))"

fun b64_decode :: "nat list \<Rightarrow> nat list" where
  "b64_decode (s1 # s2 # s3 # s4 # rest) =
     [s1 * 4 + s2 div 16, s2 mod 16 * 16 + s3 div 4, s3 mod 4 * 64 + s4] @ b64_decode rest"
| "b64_decode [s1, s2, s3] = [s1 * 4 + s2 div 16, s2 mod 16 * 16 + s3 div 4]"
| "b64_decode [s1, s2] = [s1 * 4 + s2 div 16]"
| "b64_decode _ = []"

definition is_ascii_ws :: "jschar \<Rightarrow> bool" where
  "is_ascii_ws c = (c = 0x09 \<or> c = 0x0A \<or> c = 0x0C \<or> c = 0x0D \<or> c = 0x20)"

definition strip_padding :: "nat list \<Rightarrow> nat list" where
  "strip_padding d =
     (if length d mod 4 = 0 \<and> d \<noteq> [] \<and> last d = 0x3D then
        (if butlast d \<noteq> [] \<and> last (butlast d) = 0x3D then butlast (butlast d)
         else butlast d)
      else d)"

text \<open>\<open>atob\<close>, the forgiving base64 decoding of the HTML standard.\<close>

definition atob :: "jsstring \<Rightarrow> js_error + jsstring" where
  "atob data =
     (let d = strip_padding (map unat (filter (\<lambda>c. \<not> is_ascii_ws c) data))
      in if length d mod 4 = 1 then Inl InvalidCharacterError
         else if list_ex (\<lambda>c. b64_index c = None) d then Inl InvalidCharacterError
         else Inr (map of_nat (b64_decode (map (\<lambda>c. the (b64_index c)) d))))"

section \<open>Platform primitives\<close>

text \<open>
  What the code takes from the platform and the model does not define: PBKDF2 with
  HMAC-SHA-256 (password bytes, salt, iteration count, key length in bits), AES-GCM
  encryption and decryption (key, nonce, text; \<open>None\<close> is the \<open>OperationError\<close> of
  \<open>crypto.subtle\<close>), and the decimal text of a number that is not a small integer.
\<close>

record platform =
  pbkdf2_hmac_sha256 :: "byte list \<Rightarrow> byte list \<Rightarrow> nat \<Rightarrow> nat \<Rightarrow> byte list"
  aes_gcm_encrypt :: "byte list \<Rightarrow> byte list \<Rightarrow> byte list \<Rightarrow> byte list option"
  aes_gcm_decrypt :: "byte list \<Rightarrow> byte list \<Rightarrow> byte list \<Rightarrow> byte list option"
  number_text :: "real \<Rightarrow> jsstring"

section \<open>Values as text\<close>

function decimal_digits :: "nat \<Rightarrow> jsstring" where
  "decimal_digits n =
     (if n < 10 then [of_nat (0x30 + n)]
      else decimal_digits (n div 10) @ [of_nat (0x30 + n mod 10)])"
  by pat_completeness auto
termination
  by (relation "measure id") auto

definition number_to_string :: "platform \<Rightarrow> number \<Rightarrow> jsstring" where
  "number_to_string pf n =
     (case n of
        NaN \<Rightarrow> js ''NaN''
      | PosInf \<Rightarrow> js ''Infinity''
      | NegInf \<Rightarrow> js ''-Infinity''
      | Finite x \<Rightarrow>
          if x = of_int \<lfloor>x\<rfloor> \<and> \<bar>x\<bar> < 10 ^ 21
          then (if x < 0 then js ''-'' else []) @ decimal_digits (nat \<bar>\<lfloor>x\<rfloor>\<bar>)
          else number_text pf x)"

fun js_to_string :: "platform \<Rightarrow> jsval \<Rightarrow> jsstring"
  and js_join :: "platform \<Rightarrow> jsval list \<Rightarrow> jsstring"
where
  "js_to_string pf Undefined = js ''undefined''"
| "js_to_string pf Null = js ''null''"
| "js_to_string pf (Bool b) = (if b then js ''true'' else js ''false'')"
| "js_to_string pf (Num n) = number_to_string pf n"
| "js_to_string pf (Str s) = s"
| "js_to_string pf (Arr vs) = js_join pf vs"
| "js_to_string pf (Obj kvs) = js ''[object Object]''"
| "js_join pf [] = []"
| "js_join pf (v # vs) =
     (case v of Undefined \<Rightarrow> [] | Null \<Rightarrow> [] | _ \<Rightarrow> js_to_string pf v)
     @ (if vs = [] then [] else of_char CHR '','' # js_join pf vs)"

definition hex_digit :: "nat \<Rightarrow> jschar" where
  "hex_digit n = (if n < 10 then of_nat (0x30 + n) else of_nat (0x61 + (n - 10)))"

definition unicode_escape :: "jschar \<Rightarrow> jsstring" where
  "unicode_escape c =
     [BACKSLASH, of_char CHR ''u'', hex_digit (unat c div 4096), hex_digit (unat c div 256 mod 16),
      hex_digit (unat c div 16 mod 16), hex_digit (unat c mod 16)]"

fun quote_chars :: "jsstring \<Rightarrow> jsstring" where
  "quote_chars [] = []"
| "quote_chars (c # cs) =
     (if c = 0x08 then BACKSLASH # of_char CHR ''b'' # quote_chars cs
      else if c = 0x09 then BACKSLASH # of_char CHR ''t'' # quote_chars cs
      else if c = 0x0A then BACKSLASH # of_char CHR ''n'' # quote_chars cs
      else if c = 0x0C then BACKSLASH # of_char CHR ''f'' # quote_chars cs
      else if c = 0x0D then BACKSLASH # of_char CHR ''r'' # quote_chars cs
      else if c = QUOTE then BACKSLASH # QUOTE # quote_chars cs
      else if c = BACKSLASH then BACKSLASH # BACKSLASH # quote_chars cs
      else if c < 0x20 then unicode_escape c @ quote_chars cs
      else if is_high_surrogate c then
        (case cs of
           [] \<Rightarrow> unicode_escape c
         | d # ds \<Rightarrow>
             if is_low_surrogate d then c # d # quote_chars ds
             else unicode_escape c @ quote_chars cs)
      else if is_low_surrogate c then unicode_escape c @ quote_chars cs
      else c # quote_chars cs)"

definition QuoteJSONString :: "jsstring \<Rightarrow> jsstring" where
  "QuoteJSONString s = QUOTE # quote_chars s @ [QUOTE]"

fun join :: "jsstring \<Rightarrow> jsstring list \<Rightarrow> jsstring" where
  "join sep [] = []"
| "join sep [x] = x"
| "join sep (x # y # ys) = x @ sep @ join sep (y # ys)"

definition wrap_partial :: "jschar \<Rightarrow> jschar \<Rightarrow> jsstring \<Rightarrow> jsstring \<Rightarrow> jsstring list \<Rightarrow> jsstring" where
  "wrap_partial opening closing gap stepback partial =
     (if partial = [] then [opening, closing]
      else if gap = [] then [opening] @ join (js '','') partial @ [closing]
      else [opening, 0x0A] @ (stepback @ gap)
           @ join ([of_char CHR '','', 0x0A] @ (stepback @ gap)) partial
           @ [0x0A] @ stepback @ [closing])"

fun serialize :: "platform \<Rightarrow> jsstring \<Rightarrow> jsstring \<Rightarrow> jsval \<Rightarrow> jsstring option"
  and serialize_elements :: "platform \<Rightarrow> jsstring \<Rightarrow> jsstring \<Rightarrow> jsval list \<Rightarrow> jsstring list"
  and serialize_members ::
    "platform \<Rightarrow> jsstring \<Rightarrow> jsstring \<Rightarrow> (jsstring \<times> jsval) list \<Rightarrow> jsstring list"
where
  "serialize pf gap indent Undefined = None"
| "serialize pf gap indent Null = Some (js ''null'')"
| "serialize pf gap indent (Bool b) = Some (if b then js ''true'' else js ''false'')"
| "serialize pf gap indent (Num n) =
     Some (case n of Finite x \<Rightarrow> number_to_string pf n | _ \<Rightarrow> js ''null'')"
| "serialize pf gap indent (Str s) = Some (QuoteJSONString s)"
| "serialize pf gap indent (Arr vs) =
     Some (wrap_partial (of_char CHR ''['') (of_char CHR '']'') gap indent
             (serialize_elements pf gap (indent @ gap) vs))"
| "serialize pf gap indent (Obj kvs) =
     Some (wrap_partial (of_char CHR ''{'') (of_char CHR ''}'') gap indent
             (serialize_members pf gap (indent @ gap) kvs))"
| "serialize_elements pf gap indent [] = []"
| "serialize_elements pf gap indent (v # vs) =
     (case serialize pf gap indent v of None \<Rightarrow> js ''null'' | Some t \<Rightarrow> t)
     # serialize_elements pf gap indent vs"
| "serialize_members pf gap indent [] = []"
| "serialize_members pf gap indent ((k, v) # kvs) =
     (case serialize pf gap indent v of
        None \<Rightarrow> serialize_members pf gap indent kvs
      | Some t \<Rightarrow>
          (QuoteJSONString k @ [of_char CHR '':''] @ (if gap = [] then [] else [0x20]) @ t)
          # serialize_members pf gap indent kvs)"

text \<open>\<open>JSON.stringify(value)\<close> and \<open>JSON.stringify(value, null, 2)\<close>.\<close>

definition JSON_stringify :: "platform \<Rightarrow> jsval \<Rightarrow> jsstring option" where
  "JSON_stringify pf v = serialize pf [] [] v"

definition JSON_stringify_2 :: "platform \<Rightarrow> jsval \<Rightarrow> jsstring option" where
  "JSON_stringify_2 pf v = serialize pf (js ''  '') [] v"

section \<open>Objects\<close>

text \<open>
  Reading a property: \<open>undefined\<close> and \<open>null\<close> have none (a \<open>TypeError\<close>); an object
  gives the value stored under the key, and \<open>undefined\<close> when there is none. Inherited
  properties are left out: the source reads \<open>version\<close>, \<open>items\<close>, \<open>encrypted\<close>, \<open>salt\<close>
  and \<open>iv\<close>, and no prototype defines these.
\<close>

fun get_prop :: "jsval \<Rightarrow> jsstring \<Rightarrow> js_error + jsval" where
  "get_prop Undefined k = Inl TypeError"
| "get_prop Null k = Inl TypeError"
| "get_prop (Obj kvs) k = Inr (case map_of kvs k of None \<Rightarrow> Undefined | Some v \<Rightarrow> v)"
| "get_prop v k = Inr Undefined"

fun truthy :: "jsval \<Rightarrow> bool" where
  "truthy Undefined = False"
| "truthy Null = False"
| "truthy (Bool b) = b"
| "truthy (Num n) = (case n of Finite x \<Rightarrow> x \<noteq> 0 | NaN \<Rightarrow> False | _ \<Rightarrow> True)"
| "truthy (Str s) = (s \<noteq> [])"
| "truthy (Arr vs) = True"
| "truthy (Obj kvs) = True"

text \<open>\<open>Promise.all\<close> over settled results: the values in order, or a rejection.\<close>

fun Promise_all :: "('e + 'a) list \<Rightarrow> 'e + 'a list" where
  "Promise_all [] = Inr []"
| "Promise_all (r # rs) =
     (case r of
        Inl e \<Rightarrow> Inl e
      | Inr x \<Rightarrow> (case Promise_all rs of Inl e \<Rightarrow> Inl e | Inr xs \<Rightarrow> Inr (x # xs)))"

section \<open>The vault cipher\<close>

definition chunkSize :: nat where
  "chunkSize = 0x8000"

function binary_loop :: "byte list \<Rightarrow> nat \<Rightarrow> jsstring \<Rightarrow> jsstring" where
  "binary_loop bytes i binary =
     (if i < length bytes
      then binary_loop bytes (i + chunkSize)
             (binary @ map ucast (take chunkSize (drop i bytes)))
      else binary)"
  by pat_completeness auto
termination
  by (relation "measure (\<lambda>(bytes, i, binary). length bytes - i)")
    (auto simp: chunkSize_def)

definition arrayBufferToBase64 :: "byte list \<Rightarrow> js_error + jsstring" where
  "arrayBufferToBase64 buffer = btoa (binary_loop buffer 0 [])"

definition base64ToArrayBuffer :: "platform \<Rightarrow> jsval \<Rightarrow> js_error + byte list" where
  "base64ToArrayBuffer pf base64 =
     then_result (atob (js_to_string pf base64)) (\<lambda>binary. Inr (map ucast binary))"

definition deriveKey :: "platform \<Rightarrow> jsstring \<Rightarrow> byte list \<Rightarrow> byte list" where
  "deriveKey pf masterPassword salt' =
     pbkdf2_hmac_sha256 pf (TextEncoder_encode masterPassword) salt' 100000 256"

record VaultItem =
  title :: jsstring
  username :: jsstring
  password :: jsstring
  url :: jsstring
  "notes" :: jsstring

record EncryptedData =
  encrypted :: jsstring
  salt :: jsstring
  iv :: jsstring

definition VaultItem_to_js :: "VaultItem \<Rightarrow> jsval" where
  "VaultItem_to_js d =
     Obj [(js ''title'', Str (title d)), (js ''username'', Str (username d)),
          (js ''password'', Str (password d)), (js ''url'', Str (url d)),
          (js ''notes'', Str (notes d))]"

definition EncryptedData_to_js :: "EncryptedData \<Rightarrow> jsval" where
  "EncryptedData_to_js e =
     Obj [(js ''encrypted'', Str (encrypted e)), (js ''salt'', Str (salt e)),
          (js ''iv'', Str (iv e))]"

text \<open>The bytes that \<open>encryptVaultItem\<close> hands to the cipher: \<open>encoder.encode(JSON.stringify(data))\<close>.\<close>

definition vault_plaintext :: "platform \<Rightarrow> VaultItem \<Rightarrow> byte list" where
  "vault_plaintext pf data =
     TextEncoder_encode (case JSON_stringify pf (VaultItem_to_js data) of
                           None \<Rightarrow> js ''undefined'' | Some t \<Rightarrow> t)"

text \<open>The fresh salt and nonce of \<open>encryptVaultItem\<close> are inputs of the model.\<close>

definition encryptVaultItem ::
  "platform \<Rightarrow> VaultItem \<Rightarrow> jsstring \<Rightarrow> byte list \<Rightarrow> byte list \<Rightarrow> js_error + EncryptedData"
where
  "encryptVaultItem pf data masterPassword salt' iv' =
     (let key = deriveKey pf masterPassword salt'
      in case aes_gcm_encrypt pf key iv' (vault_plaintext pf data) of
           None \<Rightarrow> Inl OperationError
         | Some encrypted' \<Rightarrow>
             then_result (arrayBufferToBase64 encrypted') (\<lambda>e.
             then_result (arrayBufferToBase64 salt') (\<lambda>s.
             then_result (arrayBufferToBase64 iv') (\<lambda>i.
               Inr \<lparr>encrypted = e, salt = s, iv = i\<rparr>))))"

definition deserialize :: "byte list \<Rightarrow> js_error + jsval" where
  "deserialize decrypted =
     (case JSON_parse (TextDecoder_decode decrypted) of
        None \<Rightarrow> Inl SyntaxError
      | Some v \<Rightarrow> Inr v)"

definition decryptVaultItem :: "platform \<Rightarrow> jsval \<Rightarrow> jsstring \<Rightarrow> js_error + jsval" where
  "decryptVaultItem pf encryptedData masterPassword =
     then_result (get_prop encryptedData (js ''salt'')) (\<lambda>s.
     then_result (base64ToArrayBuffer pf s) (\<lambda>salt'.
     then_result (get_prop encryptedData (js ''iv'')) (\<lambda>i.
     then_result (base64ToArrayBuffer pf i) (\<lambda>iv'.
     then_result (get_prop encryptedData (js ''encrypted'')) (\<lambda>e.
     then_result (base64ToArrayBuffer pf e) (\<lambda>encrypted'.
       (let key = deriveKey pf masterPassword salt'
        in case aes_gcm_decrypt pf key iv' encrypted' of
             None \<Rightarrow> Inl OperationError
           | Some decrypted \<Rightarrow> deserialize decrypted)))))))"

section \<open>Export and import\<close>

definition exportVaultData ::
  "platform \<Rightarrow> VaultItem list \<Rightarrow> jsstring \<Rightarrow> jsstring \<Rightarrow> (nat \<Rightarrow> byte list \<times> byte list)
     \<Rightarrow> js_error + jsstring"
where
  "exportVaultData pf items masterPassword timestamp random =
     then_result
       (Promise_all (map (\<lambda>n. encryptVaultItem pf (items ! n) masterPassword
                              (fst (random n)) (snd (random n)))
                       [0..<length items]))
       (\<lambda>blobs.
          let exportData = Obj [(js ''version'', Num (Finite 1)),
                                (js ''timestamp'', Str timestamp),
                                (js ''items'', Arr (map EncryptedData_to_js blobs))]
          in case JSON_stringify_2 pf exportData of
               None \<Rightarrow> Inl TypeError
             | Some t \<Rightarrow> Inr t)"

definition import_body :: "platform \<Rightarrow> jsstring \<Rightarrow> jsstring \<Rightarrow> js_error + jsval list" where
  "import_body pf exportedData masterPassword =
     (case JSON_parse exportedData of
        None \<Rightarrow> Inl SyntaxError
      | Some data \<Rightarrow>
          then_result (get_prop data (js ''version'')) (\<lambda>version.
            if \<not> truthy version then Inl (Error (js ''Invalid export file format''))
            else then_result (get_prop data (js ''items'')) (\<lambda>items.
              if \<not> truthy items then Inl (Error (js ''Invalid export file format''))
              else (case items of
                      Arr xs \<Rightarrow>
                        Promise_all (map (\<lambda>encryptedItem.
                            decryptVaultItem pf encryptedItem masterPassword) xs)
                    | _ \<Rightarrow> Inl TypeError))))"

definition importVaultData :: "platform \<Rightarrow> jsstring \<Rightarrow> jsstring \<Rightarrow> js_error + jsval list" where
  "importVaultData pf exportedData masterPassword =
     (case import_body pf exportedData masterPassword of
        Inl error \<Rightarrow> Inl (Error (js ''Failed to import vault data. Check your master password.''))
      | Inr items \<Rightarrow> Inr items)"

section \<open>A platform for examples\<close>

text \<open>
  The cipher and the key derivation are parameters of the model. For running it on
  examples, this platform takes the password followed by the salt as the key, and
  encrypts by appending the key and the nonce, which decryption checks and removes.
\<close>

definition toy_platform :: platform where
  "toy_platform =
     \<lparr>pbkdf2_hmac_sha256 = (\<lambda>pw s n l. pw @ s),
      aes_gcm_encrypt = (\<lambda>k n m. Some (m @ k @ n)),
      aes_gcm_decrypt = (\<lambda>k n c.
        if length (k @ n) \<le> length c \<and> drop (length c - length (k @ n)) c = k @ n
        then Some (take (length c - length (k @ n)) c) else None),
      number_text = (\<lambda>x. [])\<rparr>"

section \<open>Notions for the round trips\<close>

text \<open>
  The cipher round-trips on a plaintext under a key and a nonce: encryption succeeds and
  decryption of its result gives the plaintext back.
\<close>

definition cipher_round_trip :: "platform \<Rightarrow> byte list \<Rightarrow> byte list \<Rightarrow> byte list \<Rightarrow> bool" where
  "cipher_round_trip pf k n m =
     (case aes_gcm_encrypt pf k n m of
        None \<Rightarrow> False
      | Some c \<Rightarrow> aes_gcm_decrypt pf k n c = Some m)"

text \<open>Unicode scalar values, and strings in which every surrogate is part of a pair.\<close>

definition scalar :: "nat \<Rightarrow> bool" where
  "scalar cp = (cp < 0x110000 \<and> \<not> (0xD800 \<le> cp \<and> cp \<le> 0xDFFF))"

fun well_formed :: "jsstring \<Rightarrow> bool" where
  "well_formed [] = True"
| "well_formed [c] = (\<not> is_high_surrogate c \<and> \<not> is_low_surrogate c)"
| "well_formed (c # d # cs) =
     (if is_high_surrogate c then is_low_surrogate d \<and> well_formed cs
      else \<not> is_low_surrogate c \<and> well_formed (d # cs))"

text \<open>The characters \<open>d\<close> pass the checks of \<open>atob\<close> and decode to the bytes \<open>ns\<close>.\<close>

definition b64_ok :: "nat list \<Rightarrow> nat list \<Rightarrow> bool" where
  "b64_ok d ns = (length d mod 4 \<noteq> 1 \<and> (\<forall>c\<in>set d. b64_index c \<noteq> None)
     \<and> b64_decode (map (\<lambda>c. the (b64_index c)) d) = ns)"

text \<open>The JSON text of a vault item, as \<open>JSON.stringify\<close> writes it.\<close>

definition item_text :: "VaultItem \<Rightarrow> jsstring" where
  "item_text d =
     js ''{\"title\":'' @ QuoteJSONString (title d)
     @ js '',\"username\":'' @ QuoteJSONString (username d)
     @ js '',\"password\":'' @ QuoteJSONString (password d)
     @ js '',\"url\":'' @ QuoteJSONString (url d)
     @ js '',\"notes\":'' @ QuoteJSONString (notes d) @ js ''}''"

text \<open>
  The text that \<open>JSON.stringify\<close> with an indentation of two spaces writes for a blob
  inside the list of an export, for the list of blobs, and for the whole container.
\<close>

definition blob_text :: "EncryptedData \<Rightarrow> jsstring" where
  "blob_text b =
     js ''{'' @ [0x0A] @ js ''      \"encrypted\": '' @ QuoteJSONString (encrypted b)
     @ js '','' @ [0x0A] @ js ''      \"salt\": '' @ QuoteJSONString (salt b)
     @ js '','' @ [0x0A] @ js ''      \"iv\": '' @ QuoteJSONString (iv b)
     @ [0x0A] @ js ''    }''"

definition items_text :: "EncryptedData list \<Rightarrow> jsstring" where
  "items_text blobs =
     (if blobs = [] then js ''[]''
      else js ''['' @ [0x0A] @ js ''    ''
           @ join (js '','' @ [0x0A] @ js ''    '') (map blob_text blobs)
           @ [0x0A] @ js ''  ]'')"

definition container_text :: "jsstring \<Rightarrow> EncryptedData list \<Rightarrow> jsstring" where
  "container_text timestamp blobs =
     js ''{'' @ [0x0A] @ js ''  \"version\": 1,'' @ [0x0A]
     @ js ''  \"timestamp\": '' @ QuoteJSONString timestamp @ js '','' @ [0x0A]
     @ js ''  \"items\": '' @ items_text blobs @ [0x0A] @ js ''}''"

section \<open>Properties of the generator\<close>

lemmas charset_defs = lowercase_def uppercase_def numbers_def symbols_def ambiguous_def js_def

lemma set_build_charset:
  "set (build_charset options) =
     (set lowercase \<union> set uppercase
        \<union> (if includeNumbers options then set numbers else {})
        \<union> (if includeSymbols options then set symbols else {}))
     - (if excludeAmbiguous options then set ambiguous else {})"
  by (auto simp: build_charset_def Let_def)

lemma build_charset_nonempty: "build_charset options \<noteq> []"
proof -
  have "(97 :: jschar) \<in> set lowercase" "(97 :: jschar) \<notin> set ambiguous"
    by (simp_all add: charset_defs)
  then have "(97 :: jschar) \<in> set (build_charset options)"
    by (simp add: set_build_charset)
  then show ?thesis by auto
qed

lemma foldl_append_concat:
  "foldl (\<lambda>acc i. acc @ f i) a xs = a @ concat (map f xs)"
  by (induction xs arbitrary: a) simp_all

lemma password_loop_map:
  "password_loop (build_charset options) rnd n =
     map (\<lambda>i. build_charset options ! (unat (rnd i) mod length (build_charset options)))
       [0..<n]"
proof -
  have sel: "select_char (build_charset options) u
      = [build_charset options ! (unat u mod length (build_charset options))]" for u
    by (simp add: select_char_def build_charset_nonempty)
  have "concat (map (\<lambda>i. [f i]) xs) = map f xs" for f :: "nat \<Rightarrow> jschar" and xs
    by (induction xs) simp_all
  then show ?thesis
    by (simp add: password_loop_def foldl_append_concat sel)
qed

lemma password_loop_subset:
  "set (password_loop (build_charset options) rnd n) \<subseteq> set (build_charset options)"
proof -
  have "0 < length (build_charset options)"
    using build_charset_nonempty by simp
  then show ?thesis
    by (auto simp: password_loop_map)
qed

lemma generate_within_quota:
  assumes "length_opt options \<le> 16384"
  shows "generateSecurePassword options rnd
           = Inr (password_loop (build_charset options) rnd (length_opt options))"
proof -
  have "\<not> 2 ^ 53 - 1 < length_opt options" using assms by simp
  moreover have "\<not> 65536 < 4 * length_opt options" using assms by simp
  ultimately show ?thesis
    by (simp add: generateSecurePassword_def new_Uint32Array_def getRandomValues_def)
qed

lemma generate_over_quota:
  assumes "16384 < length_opt options"
  shows "\<exists>e. generateSecurePassword options rnd = Inl e"
proof (cases "2 ^ 53 - 1 < length_opt options")
  case True
  then show ?thesis
    by (simp add: generateSecurePassword_def new_Uint32Array_def)
next
  case False
  moreover have "65536 < 4 * length_opt options" using assms by simp
  ultimately show ?thesis
    by (simp add: generateSecurePassword_def new_Uint32Array_def getRandomValues_def)
qed

lemma distinct_all_classes: "distinct (lowercase @ uppercase @ numbers @ symbols)"
proof -
  have "distinct (map unat (lowercase @ uppercase @ numbers @ symbols))"
    by (simp add: charset_defs)
  then show ?thesis
    using distinct_map by blast
qed

lemma distinct_build_charset: "distinct (build_charset options)"
proof -
  have "distinct (lowercase @ uppercase)" "distinct (lowercase @ uppercase @ numbers)"
    "distinct (lowercase @ uppercase @ symbols)"
    using distinct_all_classes by auto
  then show ?thesis
    using distinct_all_classes by (simp add: build_charset_def Let_def del: distinct_append)
qed

lemma count_mod_below:
  assumes "i < n"
  shows "card {k. k < N \<and> k mod n = i} = N div n + (if i < N mod n then 1 else 0)"
proof (induction N)
  case 0
  then show ?case by simp
next
  case (Suc N)
  have split: "{k. k < Suc N \<and> k mod n = i}
      = (if N mod n = i then insert N {k. k < N \<and> k mod n = i}
         else {k. k < N \<and> k mod n = i})"
    by (auto simp: less_Suc_eq)
  have fin: "finite {k. k < N \<and> k mod n = i}" by simp
  have notin: "N \<notin> {k. k < N \<and> k mod n = i}" by simp
  show ?case
  proof (cases "Suc (N mod n) = n")
    case True
    then have "Suc N mod n = 0" "Suc N div n = Suc (N div n)"
      by (simp_all add: mod_Suc div_Suc)
    then show ?thesis
      using Suc.IH True assms split fin notin by (auto simp: card_insert_if)
  next
    case False
    then have "Suc N mod n = Suc (N mod n)" "Suc N div n = N div n"
      by (simp_all add: mod_Suc div_Suc)
    then show ?thesis
      using Suc.IH False assms split fin notin by (auto simp: card_insert_if)
  qed
qed

lemma card_word32_unat:
  "card {u :: 32 word. P (unat u)} = card {k. k < 2 ^ 32 \<and> P k}"
proof -
  have img: "unat ` {u :: 32 word. P (unat u)} = {k. k < 2 ^ 32 \<and> P k}"
  proof (rule set_eqI, rule iffI)
    fix k assume "k \<in> unat ` {u :: 32 word. P (unat u)}"
    then obtain u :: "32 word" where "k = unat u" "P (unat u)" by auto
    moreover have "unat u < 2 ^ 32" using unsigned_less [of u] by simp
    ultimately show "k \<in> {k. k < 2 ^ 32 \<and> P k}" by simp
  next
    fix k assume "k \<in> {k. k < 2 ^ 32 \<and> P k}"
    then have k: "k < 2 ^ 32" "P k" by auto
    have e: "unat (of_nat k :: 32 word) = k"
      using k(1) by (simp add: unat_of_nat)
    have "(of_nat k :: 32 word) \<in> {u. P (unat u)}"
      using k(2) e by simp
    then have "unat (of_nat k :: 32 word) \<in> unat ` {u :: 32 word. P (unat u)}"
      by (rule imageI)
    then show "k \<in> unat ` {u :: 32 word. P (unat u)}"
      using e by simp
  qed
  have inj: "inj_on unat {u :: 32 word. P (unat u)}"
    by (simp add: inj_on_def word_unat_eq_iff)
  show ?thesis
    using card_image [OF inj] img by simp
qed

lemma pick_count_index:
  assumes "distinct cs" "i < length cs"
  shows "pick_count cs (cs ! i)
           = 2 ^ 32 div length cs + (if i < 2 ^ 32 mod length cs then 1 else 0)"
proof -
  have ne: "cs \<noteq> []" using assms by auto
  have "{u :: 32 word. select_char cs u = [cs ! i]} = {u. unat u mod length cs = i}"
    using assms ne by (auto simp: select_char_def nth_eq_iff_index_eq)
  then have "pick_count cs (cs ! i) = card {k. k < 2 ^ 32 \<and> k mod length cs = i}"
    by (simp add: pick_count_def card_word32_unat [of "\<lambda>k. k mod length cs = i"])
  then show ?thesis using count_mod_below [OF assms(2)] by simp
qed

lemma charset_letters_only:
  "build_charset \<lparr>length_opt = n, includeNumbers = False, includeSymbols = False,
       excludeAmbiguous = False\<rparr> = lowercase @ uppercase"
  by (simp add: build_charset_def)

lemma word32_split: "(2::nat) ^ 32 div 52 = 82595524" "(2::nat) ^ 32 mod 52 = 48"
  by simp_all

text \<open>
  C7, as stated: the generator returns a password of \<open>length\<close> characters for every
  policy. At length 16385 the array of random words has 65540 bytes, and
  \<open>crypto.getRandomValues\<close> throws instead.
\<close>

theorem generate_over_quota_counterexample:
  "generateSecurePassword \<lparr>length_opt = 16385, includeNumbers = True, includeSymbols = True,
       excludeAmbiguous = False\<rparr> (\<lambda>i. 0) = Inl QuotaExceededError"
  by (simp add: generateSecurePassword_def new_Uint32Array_def getRandomValues_def)

text \<open>
  C7, amended. The character set is the letters, plus the digits if \<open>includeNumbers\<close>,
  plus the symbols if \<open>includeSymbols\<close>, minus the ambiguous characters if
  \<open>excludeAmbiguous\<close>, and it is never empty. For a length of at most 16384 the generator
  returns a password of exactly \<open>length\<close> characters, all of them from the character set;
  for a longer one it throws. With length 20, no digits, no symbols and the ambiguous
  characters excluded, the password consists of letters other than i, l, L, o and O.
\<close>

theorem generate_honours_charset:
  "build_charset options \<noteq> []
   \<and> set (build_charset options) =
       (set lowercase \<union> set uppercase
          \<union> (if includeNumbers options then set numbers else {})
          \<union> (if includeSymbols options then set symbols else {}))
       - (if excludeAmbiguous options then set ambiguous else {})
   \<and> (length_opt options \<le> 16384 \<longrightarrow>
        (\<exists>pw. generateSecurePassword options rnd = Inr pw
           \<and> length pw = length_opt options
           \<and> set pw \<subseteq> set (build_charset options)))
   \<and> (16384 < length_opt options \<longrightarrow> (\<exists>e. generateSecurePassword options rnd = Inl e))
   \<and> (\<exists>pw. generateSecurePassword \<lparr>length_opt = 20, includeNumbers = False,
           includeSymbols = False, excludeAmbiguous = True\<rparr> rnd = Inr pw
         \<and> length pw = 20
         \<and> set pw \<subseteq> (set lowercase \<union> set uppercase) - set (js ''ilLoO''))"
proof -
  let ?p = "\<lparr>length_opt = 20, includeNumbers = False, includeSymbols = False,
      excludeAmbiguous = True\<rparr>"
  have len: "length (password_loop (build_charset opts) rnd n) = n" for opts n
    by (simp add: password_loop_map)
  have ok: "\<exists>pw. generateSecurePassword options rnd = Inr pw
           \<and> length pw = length_opt options
           \<and> set pw \<subseteq> set (build_charset options)"
    if "length_opt options \<le> 16384"
    using generate_within_quota [OF that, of rnd] len [of options "length_opt options"]
      password_loop_subset [of options rnd "length_opt options"]
    by simp
  have "set (js ''ilLoO'') \<subseteq> set ambiguous"
    by (simp add: charset_defs)
  then have "set (build_charset ?p) \<subseteq> (set lowercase \<union> set uppercase) - set (js ''ilLoO'')"
    by (auto simp: set_build_charset)
  then have sub: "set (password_loop (build_charset ?p) rnd 20)
      \<subseteq> (set lowercase \<union> set uppercase) - set (js ''ilLoO'')"
    using password_loop_subset [of ?p rnd 20] by blast
  have "length_opt ?p \<le> 16384" by simp
  from generate_within_quota [OF this, of rnd]
  have "generateSecurePassword ?p rnd = Inr (password_loop (build_charset ?p) rnd 20)"
    by simp
  then have ex: "\<exists>pw. generateSecurePassword ?p rnd = Inr pw \<and> length pw = 20
      \<and> set pw \<subseteq> (set lowercase \<union> set uppercase) - set (js ''ilLoO'')"
    using sub len [of ?p 20] by simp
  show ?thesis
    using build_charset_nonempty [of options] set_build_charset [of options] ok
      generate_over_quota [of options rnd] ex
    by blast
qed

theorem generate_honours_charset_witness:
  "generateSecurePassword \<lparr>length_opt = 3, includeNumbers = True, includeSymbols = False,
       excludeAmbiguous = True\<rparr> (\<lambda>i. 7 + 100 * of_nat i) = Inr (js ''h7V'')
   \<and> set (js ''h7V'') \<subseteq> set (build_charset \<lparr>length_opt = 3, includeNumbers = True,
         includeSymbols = False, excludeAmbiguous = True\<rparr>)
   \<and> length (js ''h7V'') = 3"
proof -
  let ?p = "\<lparr>length_opt = 3, includeNumbers = True, includeSymbols = False,
      excludeAmbiguous = True\<rparr>"
  let ?r = "\<lambda>i. 7 + 100 * of_nat i :: 32 word"
  have run: "generateSecurePassword ?p ?r = Inr (js ''h7V'')"
    by (simp add: generateSecurePassword_def new_Uint32Array_def getRandomValues_def
        password_loop_def build_charset_def charset_defs select_char_def
        upt_rec [of _ "numeral _"] upt_rec [of _ "Suc _"])
  have "length_opt ?p \<le> 16384" by simp
  then obtain pw where "generateSecurePassword ?p ?r = Inr pw"
    and "length pw = length_opt ?p" and "set pw \<subseteq> set (build_charset ?p)"
    using generate_honours_charset [of ?p ?r] by blast
  then show ?thesis
    using run by simp
qed

text \<open>
  C3, as stated: any two characters of the character set are selected by equally many
  32-bit words. With letters only the character set has 52 characters, and \<open>2 ^ 32\<close> leaves
  the remainder 48: \<open>a\<close> (index 0) is selected by one word more than \<open>Z\<close> (index 51).
\<close>

theorem uniform_selection_counterexample:
  "pick_count (build_charset \<lparr>length_opt = 16, includeNumbers = False,
       includeSymbols = False, excludeAmbiguous = False\<rparr>) (of_char CHR ''a'') = 82595525
   \<and> pick_count (build_charset \<lparr>length_opt = 16, includeNumbers = False,
       includeSymbols = False, excludeAmbiguous = False\<rparr>) (of_char CHR ''Z'') = 82595524"
proof -
  let ?cs = "lowercase @ uppercase"
  have d: "distinct ?cs" using distinct_all_classes by auto
  have l: "length ?cs = 52" by (simp add: charset_defs)
  have a: "?cs ! 0 = of_char CHR ''a''" and z: "?cs ! 51 = of_char CHR ''Z''"
    by (simp_all add: charset_defs)
  have "pick_count ?cs (?cs ! 0) = 82595525"
    using pick_count_index [OF d, of 0] by (simp only: l word32_split) simp
  moreover have "pick_count ?cs (?cs ! 51) = 82595524"
    using pick_count_index [OF d, of 51] by (simp only: l word32_split) simp
  ultimately show ?thesis
    by (simp only: charset_letters_only a z)
qed

text \<open>
  C3, amended: when the generator returns (a length of at most 16384), every output
  character is selected from its own random word as \<open>charset[u mod n]\<close>; the character at
  index \<open>i\<close> is selected by \<open>2 ^ 32 div n\<close> words and by one more when
  \<open>i < 2 ^ 32 mod n\<close>, so the counts of two characters of the character set differ by at
  most one.
\<close>

theorem selection_nearly_uniform:
  assumes "i < length (build_charset options)" and "j < length (build_charset options)"
    and "k < length_opt options" and "length_opt options \<le> 16384"
  shows "(\<exists>pw. generateSecurePassword options rnd = Inr pw
            \<and> pw ! k = build_charset options
                  ! (unat (rnd k) mod length (build_charset options)))
       \<and> pick_count (build_charset options) (build_charset options ! i)
           = 2 ^ 32 div length (build_charset options)
             + (if i < 2 ^ 32 mod length (build_charset options) then 1 else 0)
       \<and> pick_count (build_charset options) (build_charset options ! i)
           \<le> pick_count (build_charset options) (build_charset options ! j) + 1"
proof -
  let ?cs = "build_charset options"
  have "password_loop ?cs rnd (length_opt options) ! k = ?cs ! (unat (rnd k) mod length ?cs)"
    using assms(3) by (simp add: password_loop_map)
  then have "\<exists>pw. generateSecurePassword options rnd = Inr pw
      \<and> pw ! k = ?cs ! (unat (rnd k) mod length ?cs)"
    using generate_within_quota [OF assms(4), of rnd] by simp
  moreover have "pick_count ?cs (?cs ! i)
      = 2 ^ 32 div length ?cs + (if i < 2 ^ 32 mod length ?cs then 1 else 0)"
    using pick_count_index [OF distinct_build_charset assms(1)] .
  moreover have "pick_count ?cs (?cs ! j)
      = 2 ^ 32 div length ?cs + (if j < 2 ^ 32 mod length ?cs then 1 else 0)"
    using pick_count_index [OF distinct_build_charset assms(2)] .
  ultimately show ?thesis by simp
qed

theorem selection_nearly_uniform_witness:
  "pick_count (lowercase @ uppercase) ((lowercase @ uppercase) ! 51)
     \<le> pick_count (lowercase @ uppercase) ((lowercase @ uppercase) ! 0) + 1
   \<and> pick_count (lowercase @ uppercase) ((lowercase @ uppercase) ! 51) = 82595524"
proof -
  let ?p = "\<lparr>length_opt = 16, includeNumbers = False, includeSymbols = False,
      excludeAmbiguous = False\<rparr>"
  have cs: "build_charset ?p = lowercase @ uppercase"
    by (rule charset_letters_only)
  have l: "length (lowercase @ uppercase) = 52" by (simp add: charset_defs)
  have h: "51 < length (build_charset ?p)" "0 < length (build_charset ?p)"
    "0 < length_opt ?p" "length_opt ?p \<le> 16384"
    by (simp_all only: cs l) simp_all
  have "pick_count (build_charset ?p) (build_charset ?p ! 51)
           = 2 ^ 32 div length (build_charset ?p)
             + (if 51 < 2 ^ 32 mod length (build_charset ?p) then 1 else 0)
       \<and> pick_count (build_charset ?p) (build_charset ?p ! 51)
           \<le> pick_count (build_charset ?p) (build_charset ?p ! 0) + 1"
    using selection_nearly_uniform [OF h, of rnd] by blast
  then show ?thesis
    by (simp only: cs l word32_split) simp
qed

section \<open>Properties of the strength estimator\<close>

lemma charsetSize_of_pos:
  assumes "pw \<noteq> []"
  shows "10 \<le> charsetSize_of pw"
proof -
  obtain c rest where p: "pw = c # rest"
    using assms by (cases pw) auto
  have "is_lower c \<or> is_upper c \<or> is_digit c \<or> is_other c"
    by (auto simp: is_other_def)
  then have "regex_test is_lower pw \<or> regex_test is_upper pw
      \<or> regex_test is_digit pw \<or> regex_test is_other pw"
    by (auto simp: regex_test_def p)
  then show ?thesis
    by (auto simp: charsetSize_of_def)
qed

lemma fl_Finite: "- max_double_bound < x \<Longrightarrow> x < max_double_bound \<Longrightarrow> fl x = Finite x"
  by (simp add: fl_def)

lemma max_double_bound_lower: "2 ^ 970 \<le> max_double_bound"
proof -
  have "(2::real) ^ 971 \<le> 2 ^ 1024" by (rule power_increasing) simp_all
  moreover have "(2::real) ^ 971 = 2 * 2 ^ 970"
    using power_Suc [of "2::real" 970] by (simp only: eval_nat_numeral)
  ultimately show ?thesis unfolding max_double_bound_def by linarith
qed

lemma max_double_bound_upper: "max_double_bound \<le> 2 ^ 1024"
proof -
  have "(0::real) \<le> 2 ^ 970" by (rule zero_le_power) simp
  then show ?thesis unfolding max_double_bound_def by linarith
qed

lemma max_double_bound_pos: "0 < max_double_bound"
proof -
  have "(0::real) < 2 ^ 970" by (rule zero_less_power) simp
  then show ?thesis using max_double_bound_lower by linarith
qed

lemma Math_pow_nat:
  assumes "0 < a" and "0 < n"
  shows "Math_pow (Finite (real a)) (Finite (real n)) = fl (real a ^ n)"
  using assms by (simp add: powr_realpow)

lemma fl_overflow: "max_double_bound \<le> x \<Longrightarrow> fl x = PosInf"
  by (simp add: fl_def)

lemma entropy_in_range:
  assumes "real (charsetSize_of pw) ^ length pw < max_double_bound"
  shows "calculatePasswordEntropy pw
           = Finite (real (length pw) * log 2 (real (charsetSize_of pw)))"
proof (cases "pw = []")
  case True
  then show ?thesis by (simp add: calculatePasswordEntropy_def)
next
  case False
  let ?A = "real (charsetSize_of pw)"
  let ?L = "length pw"
  have A: "0 < ?A" using charsetSize_of_pos [OF False] by simp
  have L: "real ?L \<noteq> 0" using False by simp
  have pw: "?A powr real ?L = ?A ^ ?L"
    using A by (simp add: powr_realpow)
  have pos: "0 < ?A ^ ?L" using A by simp
  have "fl (?A ^ ?L) = Finite (?A ^ ?L)"
    using pos assms max_double_bound_pos by (intro fl_Finite) linarith+
  then have "Math_pow (Finite ?A) (Finite (real ?L)) = Finite (?A ^ ?L)"
    using A L pw by simp
  moreover have "log 2 (?A ^ ?L) = real ?L * log 2 ?A"
    using A by (simp add: log_nat_power)
  ultimately show ?thesis
    using pos by (simp add: calculatePasswordEntropy_def)
qed

lemma entropy_more_classes:
  assumes "length p1 = length p2" and "p1 \<noteq> []"
    and "charsetSize_of p1 < charsetSize_of p2"
    and "real (charsetSize_of p2) ^ length p2 < max_double_bound"
  shows "js_less (calculatePasswordEntropy p1) (calculatePasswordEntropy p2)"
proof -
  have A1: "0 < real (charsetSize_of p1)"
    using charsetSize_of_pos [OF assms(2)] by simp
  have "real (charsetSize_of p1) ^ length p1 \<le> real (charsetSize_of p2) ^ length p2"
    using assms(1,3) by (simp add: power_mono)
  then have r1: "real (charsetSize_of p1) ^ length p1 < max_double_bound"
    using assms(4) by linarith
  have "log 2 (real (charsetSize_of p1)) < log 2 (real (charsetSize_of p2))"
    using A1 assms(3) by simp
  moreover have "0 < real (length p2)"
    using assms(1,2) by (cases p2) auto
  ultimately have "real (length p2) * log 2 (real (charsetSize_of p1))
      < real (length p2) * log 2 (real (charsetSize_of p2))"
    by simp
  then show ?thesis
    by (simp add: entropy_in_range [OF r1] entropy_in_range [OF assms(4)] assms(1))
qed

lemma charsetSize_examples:
  "charsetSize_of (js ''aaaaaaaaaaaa'') = 26" "charsetSize_of (js ''aA1!aA1!aA1!'') = 94"
  by (simp_all add: charsetSize_of_def regex_test_def is_lower_def is_upper_def
      is_digit_def is_other_def js_def)

lemma entropy_example:
  "js_less (calculatePasswordEntropy (js ''aaaaaaaaaaaa''))
     (calculatePasswordEntropy (js ''aA1!aA1!aA1!''))"
proof -
  have l: "length (js ''aaaaaaaaaaaa'') = length (js ''aA1!aA1!aA1!'')"
    "js ''aaaaaaaaaaaa'' \<noteq> []" "length (js ''aA1!aA1!aA1!'') = 12"
    by (simp_all add: js_def)
  have "(94::real) ^ 12 \<le> (2 ^ 7) ^ 12"
    by (rule power_mono) simp_all
  also have "\<dots> = (2::real) ^ (7 * 12)"
    by (rule power_mult [symmetric])
  also have "\<dots> < 2 ^ 970"
    by (rule power_strict_increasing) simp_all
  finally have "(94::real) ^ 12 < max_double_bound"
    using max_double_bound_lower by linarith
  then have "real (charsetSize_of (js ''aA1!aA1!aA1!'')) ^ length (js ''aA1!aA1!aA1!'')
      < max_double_bound"
    by (simp only: charsetSize_examples l) simp
  then show ?thesis
    by (intro entropy_more_classes l) (simp_all add: charsetSize_examples)
qed

text \<open>
  C9 at a pw of 300 lowercase letters: the alphabet size is 26 and the claim gives
  \<open>300 * log2(26)\<close> bits, but \<open>Math.pow(26, 300)\<close> is beyond the largest double, so the
  power is \<open>Infinity\<close> and so is its logarithm.
\<close>

theorem entropy_overflows_long_password:
  "charsetSize_of (replicate 300 (of_char CHR ''a'')) = 26
   \<and> length (replicate 300 (of_char CHR ''a'' :: jschar)) = 300
   \<and> calculatePasswordEntropy (replicate 300 (of_char CHR ''a'')) = PosInf
   \<and> calculatePasswordEntropy (replicate 300 (of_char CHR ''a''))
       \<noteq> Finite (300 * log 2 26)"
proof -
  let ?p = "replicate 300 (of_char CHR ''a'') :: jsstring"
  have s: "set ?p = {97}" by simp
  have c: "charsetSize_of ?p = 26"
    unfolding charsetSize_of_def regex_test_def list_ex_iff s
    by (simp add: is_lower_def is_upper_def is_digit_def is_other_def)
  have l: "length ?p = 300" by simp
  have big: "max_double_bound \<le> real (26::nat) ^ (300::nat)"
  proof -
    have "max_double_bound \<le> (2::real) ^ 1024"
      by (rule max_double_bound_upper)
    also have "(2::real) ^ 1024 \<le> 2 ^ (4 * 300)"
      by (rule power_increasing) simp_all
    also have "(2::real) ^ (4 * 300) = (2 ^ 4) ^ 300"
      by (rule power_mult)
    also have "\<dots> \<le> real (26::nat) ^ 300"
      by (rule power_mono) simp_all
    finally show ?thesis .
  qed
  have "Math_pow (Finite (real (26::nat))) (Finite (real (300::nat)))
      = fl (real (26::nat) ^ (300::nat))"
    by (rule Math_pow_nat) simp_all
  also have "\<dots> = PosInf"
    by (rule fl_overflow [OF big])
  finally have "Math_pow (Finite (real (26::nat))) (Finite (real (300::nat))) = PosInf" .
  then have "calculatePasswordEntropy ?p = PosInf"
    unfolding calculatePasswordEntropy_def c l by (simp only: Math_log2.simps)
  then show ?thesis
    using c l by (simp only:) simp
qed

text \<open>
  C8. The tiers are selected by strict comparisons in ascending order, so a value equal
  to a boundary belongs to the tier above it: exactly 0.001 years is Weak, exactly 1 year
  is Moderate, exactly 1000 years is Strong and exactly 1000000 years is Very Strong. The
  strength that \<open>estimateTimeToCrack\<close> reports is the tier of the years computed from the
  entropy at \<open>10 ^ 9\<close> guesses per second.
\<close>

theorem tier_boundaries_half_open:
  "snd (classify_years (Finite (1 / 1000))) = Weak
   \<and> snd (classify_years (Finite 1)) = Moderate
   \<and> snd (classify_years (Finite 1000)) = Strong
   \<and> snd (classify_years (Finite 1000000)) = VeryStrong
   \<and> snd (classify_years (Finite y)) =
       (if y < 1 / 1000 then VeryWeak else if y < 1 then Weak
        else if y < 1000 then Moderate else if y < 1000000 then Strong else VeryStrong)
   \<and> strength (estimateTimeToCrack pw)
       = snd (classify_years (js_divide
           (js_divide (Math_pow (Finite 2) (calculatePasswordEntropy pw))
              (Finite (10 ^ 9)))
           (Finite 31557600)))"
proof -
  have "strength (estimateTimeToCrack pw)
      = snd (classify_years (yearsToCrack_of (calculatePasswordEntropy pw)))"
    by (simp add: estimateTimeToCrack_def Let_def split: prod.splits)
  moreover have "yearsToCrack_of e = js_divide (js_divide (Math_pow (Finite 2) e)
      (Finite (10 ^ 9))) (Finite 31557600)" for e
    by (simp add: yearsToCrack_of_def)
  moreover have "snd (classify_years (Finite z)) =
       (if z < 1 / 1000 then VeryWeak else if z < 1 then Weak
        else if z < 1000 then Moderate else if z < 1000000 then Strong else VeryStrong)"
    for z
    by (simp add: classify_years_def)
  ultimately show ?thesis
    by simp
qed

theorem tier_boundaries_half_open_witness:
  "snd (classify_years (Finite 1)) = Moderate
   \<and> snd (classify_years (Finite (999 / 1000))) = Weak"
  using tier_boundaries_half_open [of "999 / 1000" "[]"] by simp

section \<open>Properties of deserialization and import\<close>

lemmas parse_eval = JSON_parse_def js_def is_ws_def simple_escape_def

lemma Promise_all_map_Inr: "Promise_all (map Inr xs) = Inr xs"
  by (induction xs) auto

lemma Promise_all_Inr_D: "Promise_all rs = Inr xs \<Longrightarrow> rs = map Inr xs"
  by (induction rs arbitrary: xs) (auto split: sum.splits)

lemma min_double_bound_small: "0 < min_double_bound" "min_double_bound < 1"
proof -
  have "(1::real) < 2 ^ 1075" by (rule one_less_power) simp_all
  then show "0 < min_double_bound" "min_double_bound < 1"
    by (simp_all add: min_double_bound_def)
qed

lemma fl_small: "\<bar>x\<bar> \<le> 1 \<Longrightarrow> fl x = Finite x"
proof -
  assume a: "\<bar>x\<bar> \<le> 1"
  have "(1::real) < 2 ^ 970" by (rule one_less_power) simp_all
  then have "1 < max_double_bound" using max_double_bound_lower by linarith
  then have "x < max_double_bound" "- max_double_bound < x" using a by linarith+
  then show ?thesis by (simp add: fl_def)
qed

lemma literal_number_zero_one: "literal_number 0 = Finite 0" "literal_number 1 = Finite 1"
  using min_double_bound_small by (simp_all add: literal_number_def fl_small)

lemma Promise_all_fails: "Inl e \<in> set rs \<Longrightarrow> \<exists>e'. Promise_all rs = Inl e'"
  by (induction rs) (auto split: sum.splits)

lemma Promise_all_Inl_mem: "Promise_all rs = Inl e \<Longrightarrow> Inl e \<in> set rs"
  by (induction rs) (auto split: sum.splits)

lemma atob_error: "atob d = Inl e \<Longrightarrow> e = InvalidCharacterError"
  by (auto simp: atob_def Let_def split: if_splits)

lemma get_prop_error: "get_prop v k = Inl e \<Longrightarrow> e = TypeError"
  by (cases v) auto

lemma base64ToArrayBuffer_error:
  "base64ToArrayBuffer pf v = Inl e \<Longrightarrow> e = InvalidCharacterError"
  by (cases "atob (js_to_string pf v)") (auto simp: base64ToArrayBuffer_def dest: atob_error)

lemma deserialize_error: "deserialize bs = Inl e \<Longrightarrow> e = SyntaxError"
  by (auto simp: deserialize_def split: option.splits)

lemma then_result_Inl:
  "then_result r f = Inl e \<Longrightarrow> r = Inl e \<or> (\<exists>x. r = Inr x \<and> f x = Inl e)"
  by (cases r) auto

lemma decryptVaultItem_error:
  assumes "decryptVaultItem pf x p = Inl e"
  shows "e \<in> {TypeError, InvalidCharacterError, OperationError, SyntaxError}"
  using assms unfolding decryptVaultItem_def Let_def
  by (auto dest!: then_result_Inl dest: get_prop_error base64ToArrayBuffer_error deserialize_error
      split: option.splits)

lemmas number_eval = parse_number_def parse_int_part_def parse_fraction_def
  parse_exponent_def is_digit_def decimal_value_def digits_value_def literal_number_zero_one

lemma import_body_checked:
  assumes "JSON_parse text = Some data"
    and "get_prop data (js ''version'') = Inr version"
    and "get_prop data (js ''items'') = Inr items"
  shows "import_body pf text p =
      (if \<not> truthy version \<or> \<not> truthy items
       then Inl (Error (js ''Invalid export file format''))
       else (case items of
               Arr xs \<Rightarrow> Promise_all (map (\<lambda>x. decryptVaultItem pf x p) xs)
             | _ \<Rightarrow> Inl TypeError))"
  unfolding import_body_def using assms by simp

lemma import_body_no_props:
  assumes "JSON_parse text = Some data"
    and "get_prop data (js ''version'') = Inl e"
  shows "import_body pf text p = Inl e"
  unfolding import_body_def using assms by simp

lemma get_prop_both:
  "(\<exists>v i. get_prop d k1 = Inr v \<and> get_prop d k2 = Inr i)
   \<or> (get_prop d k1 = Inl TypeError \<and> get_prop d k2 = Inl TypeError)"
  by (cases d) simp_all

lemma import_masks:
  "import_body pf text p = Inl e \<Longrightarrow>
   importVaultData pf text p
     = Inl (Error (js ''Failed to import vault data. Check your master password.''))"
  by (simp add: importVaultData_def)

lemma get_prop_other: "get_prop d k2 = Inr i \<Longrightarrow> \<exists>v. get_prop d k1 = Inr v"
  by (cases d) simp_all

lemma import_item_fails:
  assumes parse: "JSON_parse text = Some data"
    and items: "get_prop data (js ''items'') = Inr (Arr xs)"
    and x: "x \<in> set xs" and fail: "decryptVaultItem pf x p = Inl e"
  shows "\<exists>e'. import_body pf text p = Inl e'"
proof -
  have "decryptVaultItem pf x p \<in> (\<lambda>x. decryptVaultItem pf x p) ` set xs"
    using x by (rule imageI)
  then have "Inl e \<in> set (map (\<lambda>x. decryptVaultItem pf x p) xs)"
    using fail by simp
  from Promise_all_fails [OF this]
  obtain e' where all: "Promise_all (map (\<lambda>x. decryptVaultItem pf x p) xs) = Inl e'" ..
  from get_prop_other [OF items]
  obtain version where v: "get_prop data (js ''version'') = Inr version" ..
  show ?thesis
    unfolding import_body_checked [OF parse v items] using all by simp
qed

text \<open>
  C2, as stated: deserialization fails when one of the five fields is absent. The bytes of
  \<open>{"title":"x"}\<close> are valid JSON without \<open>username\<close>, \<open>password\<close>, \<open>url\<close> and
  \<open>notes\<close>, and deserialization returns the object as parsed.
\<close>

theorem deserialize_missing_fields_counterexample:
  "deserialize (map of_char ''{\"title\":\"x\"}'') = Inr (Obj [(js ''title'', Str (js ''x''))])
   \<and> get_prop (Obj [(js ''title'', Str (js ''x''))]) (js ''username'') = Inr Undefined
   \<and> get_prop (Obj [(js ''title'', Str (js ''x''))]) (js ''password'') = Inr Undefined
   \<and> get_prop (Obj [(js ''title'', Str (js ''x''))]) (js ''url'') = Inr Undefined
   \<and> get_prop (Obj [(js ''title'', Str (js ''x''))]) (js ''notes'') = Inr Undefined"
  by (simp add: deserialize_def TextDecoder_decode_def strip_bom_def utf16_units_def parse_eval)

text \<open>
  C2, amended: deserialization fails, with a \<open>SyntaxError\<close>, exactly when the decoded text
  is not valid JSON; a valid JSON text is returned as the value it denotes, whatever
  fields it has.
\<close>

theorem deserialize_fails_on_invalid_json_only:
  "(deserialize bytes = Inl e \<longrightarrow>
      e = SyntaxError \<and> JSON_parse (TextDecoder_decode bytes) = None)
   \<and> (JSON_parse (TextDecoder_decode bytes) = None \<longrightarrow> deserialize bytes = Inl SyntaxError)
   \<and> (JSON_parse (TextDecoder_decode bytes) = Some v \<longrightarrow> deserialize bytes = Inr v)"
  by (auto simp: deserialize_def split: option.splits)

theorem deserialize_fails_on_invalid_json_only_witness:
  "deserialize (map of_char ''{\"title\"'') = Inl SyntaxError
   \<and> deserialize (map of_char ''{\"url\":\"\"}'') = Inr (Obj [(js ''url'', Str [])])"
proof -
  have a: "JSON_parse (TextDecoder_decode (map of_char ''{\"title\"'')) = None"
    by (simp add: TextDecoder_decode_def strip_bom_def utf16_units_def parse_eval)
  have b: "JSON_parse (TextDecoder_decode (map of_char ''{\"url\":\"\"}''))
      = Some (Obj [(js ''url'', Str [])])"
    by (simp add: TextDecoder_decode_def strip_bom_def utf16_units_def parse_eval)
  show ?thesis
    using deserialize_fails_on_invalid_json_only [of "map of_char ''{\"title\"''" SyntaxError Null]
      deserialize_fails_on_invalid_json_only [of "map of_char ''{\"url\":\"\"}''" SyntaxError
        "Obj [(js ''url'', Str [])]"] a b
    by blast
qed

lemma parse_version_zero:
  "JSON_parse (js ''{\"version\":0,\"items\":[]}'')
     = Some (Obj [(js ''version'', Num (Finite 0)), (js ''items'', Arr [])])"
  by (simp add: parse_eval number_eval)

text \<open>
  C4, as stated: the format check fails exactly when \<open>version\<close> or \<open>items\<close> is absent.
  The text \<open>{"version":0,"items":[]}\<close> has both fields, and the import fails on the
  format check, since the number 0 is falsy.
\<close>

theorem import_present_but_falsy_counterexample:
  "JSON_parse (js ''{\"version\":0,\"items\":[]}'')
     = Some (Obj [(js ''version'', Num (Finite 0)), (js ''items'', Arr [])])
   \<and> get_prop (Obj [(js ''version'', Num (Finite 0)), (js ''items'', Arr [])]) (js ''version'')
       = Inr (Num (Finite 0))
   \<and> get_prop (Obj [(js ''version'', Num (Finite 0)), (js ''items'', Arr [])]) (js ''items'')
       = Inr (Arr [])
   \<and> import_body toy_platform (js ''{\"version\":0,\"items\":[]}'') (js ''pw'')
       = Inl (Error (js ''Invalid export file format''))
   \<and> importVaultData toy_platform (js ''{\"version\":0,\"items\":[]}'') (js ''pw'')
       = Inl (Error (js ''Failed to import vault data. Check your master password.''))"
  by (simp add: importVaultData_def import_body_def parse_version_zero) (simp add: js_def)

text \<open>
  C4, amended: for a parsed container on which properties can be read, the format check
  fails exactly when \<open>version\<close> or \<open>items\<close> is falsy (absent, \<open>null\<close>, \<open>false\<close>, 0 or the
  empty string), and the caller then sees the generic import error; when both are truthy
  the import goes on to decrypt the items, which needs \<open>items\<close> to be an array.
\<close>

theorem import_format_check:
  assumes "JSON_parse text = Some data"
    and "get_prop data (js ''version'') = Inr version"
    and "get_prop data (js ''items'') = Inr items"
  shows "(import_body pf text p = Inl (Error (js ''Invalid export file format'')))
           = (\<not> truthy version \<or> \<not> truthy items)
       \<and> (\<not> truthy version \<or> \<not> truthy items \<longrightarrow>
            importVaultData pf text p
              = Inl (Error (js ''Failed to import vault data. Check your master password.'')))
       \<and> (truthy version \<and> truthy items \<longrightarrow>
            import_body pf text p =
              (case items of
                 Arr xs \<Rightarrow> Promise_all (map (\<lambda>x. decryptVaultItem pf x p) xs)
               | _ \<Rightarrow> Inl TypeError))"
proof -
  let ?F = "Error (js ''Invalid export file format'')"
  note body = import_body_checked [OF assms, of pf p]
  have no: "Promise_all (map (\<lambda>x. decryptVaultItem pf x p) xs) \<noteq> Inl ?F" for xs
  proof
    assume "Promise_all (map (\<lambda>x. decryptVaultItem pf x p) xs) = Inl ?F"
    then have "Inl ?F \<in> set (map (\<lambda>x. decryptVaultItem pf x p) xs)"
      by (rule Promise_all_Inl_mem)
    then obtain x where "decryptVaultItem pf x p = Inl ?F" by auto
    from decryptVaultItem_error [OF this] show False by simp
  qed
  have other: "(case items of
           Arr xs \<Rightarrow> Promise_all (map (\<lambda>x. decryptVaultItem pf x p) xs)
         | _ \<Rightarrow> Inl TypeError) \<noteq> Inl ?F"
    using no by (cases items) simp_all
  show ?thesis
  proof (cases "\<not> truthy version \<or> \<not> truthy items")
    case True
    then have b: "import_body pf text p = Inl ?F" using body by simp
    show ?thesis using True b import_masks [OF b] by auto
  next
    case False
    then have "import_body pf text p = (case items of
           Arr xs \<Rightarrow> Promise_all (map (\<lambda>x. decryptVaultItem pf x p) xs)
         | _ \<Rightarrow> Inl TypeError)"
      using body by simp
    then show ?thesis using False other by simp
  qed
qed

theorem import_format_check_witness:
  "import_body toy_platform (js ''{\"version\":0,\"items\":[]}'') (js ''pw'')
     = Inl (Error (js ''Invalid export file format''))
   \<and> \<not> truthy (Num (Finite 0))"
  using import_format_check [of "js ''{\"version\":0,\"items\":[]}''"
      "Obj [(js ''version'', Num (Finite 0)), (js ''items'', Arr [])]"
      "Num (Finite 0)" "Arr []" toy_platform "js ''pw''"] parse_version_zero
  by (simp add: js_def)

lemma tiny_literal: "\<bar>(1::real) / 10 ^ 400\<bar> \<le> min_double_bound"
proof -
  have "(2::real) ^ 1075 \<le> 2 ^ (3 * 400)"
    by (rule power_increasing) simp_all
  also have "(2::real) ^ (3 * 400) = (2 ^ 3) ^ 400"
    by (rule power_mult)
  also have "\<dots> \<le> (10::real) ^ 400"
    by (rule power_mono) simp_all
  finally have le: "(2::real) ^ 1075 \<le> 10 ^ 400" .
  have pos: "(0::real) < 2 ^ 1075" by (rule zero_less_power) simp
  have "(1::real) / 10 ^ 400 \<le> 1 / 2 ^ 1075"
  proof (rule frac_le)
    show "(0::real) \<le> 1" by simp
    show "(1::real) \<le> 1" by simp
    show "(0::real) < 2 ^ 1075" by (rule pos)
    show "(2::real) ^ 1075 \<le> 10 ^ 400" by (rule le)
  qed
  moreover have "(0::real) \<le> 1 / 10 ^ 400" by simp
  ultimately show ?thesis unfolding min_double_bound_def by (simp only: abs_of_nonneg)
qed

lemma decimal_value_tiny: "decimal_value False (Suc 0) (- 400) = Finite 0"
proof -
  have "decimal_value False (Suc 0) (- 400) = literal_number ((1::real) / 10 ^ 400)"
    unfolding decimal_value_def by simp
  then show ?thesis
    unfolding literal_number_def using tiny_literal by (simp only: if_True)
qed

lemmas number_parse = parse_number_def parse_int_part_def parse_fraction_def
  parse_exponent_def is_digit_def digits_value_def

lemma parse_underflowing_version:
  "JSON_parse (js ''{\"version\":1e-400,\"items\":[]}'')
     = Some (Obj [(js ''version'', Num (Finite 0)), (js ''items'', Arr [])])"
  by (simp add: parse_eval number_parse decimal_value_tiny)

text \<open>
  A version that is written with digits other than zero and is too small for a double,
  such as \<open>1e-400\<close>, is the number 0 after parsing, and the format check rejects it.
\<close>

lemma import_rejects_underflowing_version:
  "import_body toy_platform (js ''{\"version\":1e-400,\"items\":[]}'') (js ''pw'')
     = Inl (Error (js ''Invalid export file format''))"
  by (simp add: import_body_def parse_underflowing_version)

text \<open>
  C5. If an item of the container fails to decrypt, the import fails with the generic
  error; if the import returns a sequence, every item of the container decrypted and the
  sequence holds their records, one per item, in order.
\<close>

theorem import_all_or_nothing:
  "(JSON_parse text = Some data \<longrightarrow> get_prop data (js ''items'') = Inr (Arr xs) \<longrightarrow>
      x \<in> set xs \<longrightarrow> decryptVaultItem pf x p = Inl e \<longrightarrow>
      importVaultData pf text p
        = Inl (Error (js ''Failed to import vault data. Check your master password.'')))
   \<and> (importVaultData pf text p = Inr rs \<longrightarrow>
        (\<exists>data xs. JSON_parse text = Some data \<and> get_prop data (js ''items'') = Inr (Arr xs)
           \<and> map (\<lambda>x. decryptVaultItem pf x p) xs = map Inr rs))"
proof (intro conjI impI)
  assume parse: "JSON_parse text = Some data"
    and items: "get_prop data (js ''items'') = Inr (Arr xs)"
    and x: "x \<in> set xs" and fail: "decryptVaultItem pf x p = Inl e"
  from import_item_fails [OF this] obtain e' where "import_body pf text p = Inl e'" by blast
  then show "importVaultData pf text p
      = Inl (Error (js ''Failed to import vault data. Check your master password.''))"
    by (rule import_masks)
next
  assume ok: "importVaultData pf text p = Inr rs"
  then have body: "import_body pf text p = Inr rs"
    by (cases "import_body pf text p") (simp_all add: importVaultData_def)
  then obtain data where parse: "JSON_parse text = Some data"
    by (cases "JSON_parse text") (simp_all add: import_body_def)
  obtain version where v: "get_prop data (js ''version'') = Inr version"
  proof (cases "get_prop data (js ''version'')")
    case (Inl e)
    from import_body_no_props [OF parse Inl, of pf p] body show ?thesis by simp
  next
    case (Inr v)
    then show ?thesis using that by blast
  qed
  from get_prop_other [OF v]
  obtain items where i: "get_prop data (js ''items'') = Inr items" ..
  note chk = import_body_checked [OF parse v i, of pf p]
  have t: "truthy version" "truthy items"
    using chk body by (auto split: if_splits)
  obtain xs where xs: "items = Arr xs"
    using chk body t by (cases items) simp_all
  have "Promise_all (map (\<lambda>x. decryptVaultItem pf x p) xs) = Inr rs"
    using chk body t xs by simp
  from Promise_all_Inr_D [OF this] parse i xs
  show "\<exists>data xs. JSON_parse text = Some data \<and> get_prop data (js ''items'') = Inr (Arr xs)
           \<and> map (\<lambda>x. decryptVaultItem pf x p) xs = map Inr rs"
    by blast
qed

lemma parse_one_null_item:
  "JSON_parse (js ''{\"version\":1,\"items\":[null]}'')
     = Some (Obj [(js ''version'', Num (Finite 1)), (js ''items'', Arr [Null])])"
  by (simp add: parse_eval number_eval)

lemma parse_no_items:
  "JSON_parse (js ''{\"version\":1,\"items\":[]}'')
     = Some (Obj [(js ''version'', Num (Finite 1)), (js ''items'', Arr [])])"
  by (simp add: parse_eval number_eval)

theorem import_all_or_nothing_witness:
  "decryptVaultItem toy_platform Null (js ''pw'') = Inl TypeError
   \<and> importVaultData toy_platform (js ''{\"version\":1,\"items\":[null]}'') (js ''pw'')
       = Inl (Error (js ''Failed to import vault data. Check your master password.''))"
proof -
  have d: "decryptVaultItem toy_platform Null (js ''pw'') = Inl TypeError"
    by (simp add: decryptVaultItem_def)
  have i: "get_prop (Obj [(js ''version'', Num (Finite 1)), (js ''items'', Arr [Null])])
      (js ''items'') = Inr (Arr [Null])"
    by (simp add: js_def)
  show ?thesis
    using import_all_or_nothing [of "js ''{\"version\":1,\"items\":[null]}''"
        "Obj [(js ''version'', Num (Finite 1)), (js ''items'', Arr [Null])]" "[Null]" Null
        toy_platform "js ''pw''" TypeError "[]"] parse_one_null_item d i
    by simp
qed

text \<open>
  C10. Every failure of the import is the same error value: whatever the cause, the caller
  gets \<open>Failed to import vault data. Check your master password.\<close> This covers a text
  that does not parse, a container whose \<open>version\<close> or \<open>items\<close> is missing or falsy, and
  an item that fails to decrypt.
\<close>

theorem import_errors_are_masked:
  "(importVaultData pf text p = Inl e \<longrightarrow>
      e = Error (js ''Failed to import vault data. Check your master password.''))
   \<and> (JSON_parse text = None \<longrightarrow>
        importVaultData pf text p
          = Inl (Error (js ''Failed to import vault data. Check your master password.'')))
   \<and> (JSON_parse text = Some data \<longrightarrow>
        (\<forall>v. get_prop data (js ''version'') = Inr v \<longrightarrow> \<not> truthy v)
          \<or> (\<forall>i. get_prop data (js ''items'') = Inr i \<longrightarrow> \<not> truthy i) \<longrightarrow>
        importVaultData pf text p
          = Inl (Error (js ''Failed to import vault data. Check your master password.'')))
   \<and> (JSON_parse text = Some data \<longrightarrow> get_prop data (js ''items'') = Inr (Arr xs) \<longrightarrow>
        x \<in> set xs \<longrightarrow> decryptVaultItem pf x p = Inl e' \<longrightarrow>
        importVaultData pf text p
          = Inl (Error (js ''Failed to import vault data. Check your master password.'')))"
proof (intro conjI impI)
  show "e = Error (js ''Failed to import vault data. Check your master password.'')"
    if "importVaultData pf text p = Inl e"
    using that by (cases "import_body pf text p") (simp_all add: importVaultData_def)
next
  assume "JSON_parse text = None"
  then have "import_body pf text p = Inl SyntaxError"
    by (simp add: import_body_def)
  then show "importVaultData pf text p
      = Inl (Error (js ''Failed to import vault data. Check your master password.''))"
    by (rule import_masks)
next
  assume parse: "JSON_parse text = Some data"
    and bad: "(\<forall>v. get_prop data (js ''version'') = Inr v \<longrightarrow> \<not> truthy v)
          \<or> (\<forall>i. get_prop data (js ''items'') = Inr i \<longrightarrow> \<not> truthy i)"
  have "\<exists>e''. import_body pf text p = Inl e''"
  proof (cases "get_prop data (js ''version'')")
    case (Inl e)
    then show ?thesis using import_body_no_props [OF parse] by blast
  next
    case (Inr v)
    from get_prop_other [OF Inr]
    obtain i where i: "get_prop data (js ''items'') = Inr i" ..
    have "\<not> truthy v \<or> \<not> truthy i" using bad Inr i by blast
    then have "import_body pf text p = Inl (Error (js ''Invalid export file format''))"
      using import_body_checked [OF parse Inr i, of pf p] by simp
    then show ?thesis by blast
  qed
  then show "importVaultData pf text p
      = Inl (Error (js ''Failed to import vault data. Check your master password.''))"
    using import_masks by blast
next
  assume parse: "JSON_parse text = Some data"
    and items: "get_prop data (js ''items'') = Inr (Arr xs)"
    and x: "x \<in> set xs" and fail: "decryptVaultItem pf x p = Inl e'"
  from import_item_fails [OF this] obtain e'' where "import_body pf text p = Inl e''" by blast
  then show "importVaultData pf text p
      = Inl (Error (js ''Failed to import vault data. Check your master password.''))"
    by (rule import_masks)
qed

theorem import_errors_are_masked_witness:
  "JSON_parse (js ''{\"version\":'') = None
   \<and> importVaultData toy_platform (js ''{\"version\":'') (js ''pw'')
       = Inl (Error (js ''Failed to import vault data. Check your master password.''))"
proof -
  have n: "JSON_parse (js ''{\"version\":'') = None"
    by (simp add: parse_eval number_eval)
  show ?thesis
    using import_errors_are_masked [of toy_platform "js ''{\"version\":''" "js ''pw''"
        SyntaxError Null "[]" Null TypeError] n
    by simp
qed

section \<open>Properties of the base64 coding\<close>

lemma binary_loop_eq: "binary_loop bytes i binary = binary @ map ucast (drop i bytes)"
proof (induction bytes i binary rule: binary_loop.induct)
  case (1 bytes i binary)
  show ?case
  proof (cases "i < length bytes")
    case True
    have "drop i bytes = take chunkSize (drop i bytes) @ drop (i + chunkSize) bytes"
      using append_take_drop_id [of chunkSize "drop i bytes"] by (simp add: add.commute)
    then have "map ucast (drop i bytes) =
        (map ucast (take chunkSize (drop i bytes)) :: jsstring)
          @ map ucast (drop (i + chunkSize) bytes)"
      by (metis map_append)
    then show ?thesis
      using True 1 by (subst binary_loop.simps) simp
  next
    case False
    then show ?thesis by (subst binary_loop.simps) simp
  qed
qed

lemma unat_byte_less: "unat (b :: byte) < 256"
  using unsigned_less [of b, where ?'a = nat] by simp

lemma unat_ucast_byte: "unat (ucast (b :: byte) :: jschar) = unat b"
proof -
  have "unat b < 2 ^ 16" using unat_byte_less [of b] by simp
  then show ?thesis
    by (simp add: unsigned_ucast_eq take_bit_nat_eq_self)
qed

lemma ucast_byte_le: "(ucast (b :: byte) :: jschar) \<le> 0xFF"
proof -
  have "unat b < 256" by (rule unat_byte_less)
  then have "unat (ucast b :: jschar) \<le> unat (0xFF :: jschar)"
    by (simp add: unat_ucast_byte)
  then show ?thesis by (simp only: word_le_nat_alt)
qed

lemma arrayBufferToBase64_eq:
  "arrayBufferToBase64 bytes = Inr (map of_nat (b64_encode (map unat bytes)))"
proof -
  have nb: "list_ex (\<lambda>c. 0xFF < c) (map ucast bytes :: jsstring) = False"
  proof -
    have "\<not> 0xFF < (ucast b :: jschar)" for b :: byte
      using ucast_byte_le [of b] by (rule leD)
    then show ?thesis unfolding list_ex_iff by (simp add: image_iff)
  qed
  have mu: "map unat (map ucast bytes :: jsstring) = map unat bytes"
    by (induction bytes) (simp_all add: unat_ucast_byte)
  have bl: "binary_loop bytes 0 [] = map ucast bytes"
    unfolding binary_loop_eq by simp
  show ?thesis
    unfolding arrayBufferToBase64_def bl btoa_def nb mu by (rule if_False)
qed

lemma b64_index_char: "i < 64 \<Longrightarrow> b64_index (b64_char i) = Some i"
  by (auto simp: b64_index_def b64_char_def)

lemma b64_char_bounds: "i < 64 \<Longrightarrow> b64_char i < 128 \<and> b64_char i \<noteq> 0x3D \<and> 0x2B \<le> b64_char i"
  by (auto simp: b64_char_def)

lemma length_b64_encode: "length (b64_encode ns) mod 4 = 0"
  by (induction ns rule: b64_encode.induct) simp_all

lemma b64_encode_range: "\<forall>n\<in>set ns. n < 256 \<Longrightarrow> \<forall>c\<in>set (b64_encode ns). 0x2B \<le> c \<and> c < 128"
proof (induction ns rule: b64_encode.induct)
  case 1
  then show ?case by simp
next
  case (2 a)
  then have "a div 4 < 64" "a mod 4 * 16 < 64" by auto
  then show ?case using b64_char_bounds by auto
next
  case (3 a b)
  then have "a div 4 < 64" "a mod 4 * 16 + b div 16 < 64" "b mod 16 * 4 < 64" by auto
  then show ?case using b64_char_bounds by auto
next
  case (4 a b c rest)
  then have "a div 4 < 64" "a mod 4 * 16 + b div 16 < 64" "b mod 16 * 4 + c div 64 < 64"
    "c mod 64 < 64" by auto
  then show ?case using b64_char_bounds 4 by auto
qed

lemma strip_padding_cons4:
  assumes "length e mod 4 = 0" "x4 \<noteq> 0x3D"
  shows "strip_padding (x1 # x2 # x3 # x4 # e) = x1 # x2 # x3 # x4 # strip_padding e"
proof (cases "e = []")
  case True
  then show ?thesis using assms by (simp add: strip_padding_def)
next
  case False
  then have "0 < length e" by simp
  then have l: "4 \<le> length e" using assms(1) by presburger
  then have "0 < length (butlast e)" by simp
  then have ne: "butlast e \<noteq> []" by blast
  have m: "length (x1 # x2 # x3 # x4 # e) mod 4 = 0"
    using assms(1) by (simp add: mod_Suc)
  show ?thesis
    unfolding strip_padding_def using False ne m assms(1) by simp
qed

lemma divmod_shift:
  fixes x y :: nat
  assumes "y < k"
  shows "(x * k + y) div k = x" and "(x * k + y) mod k = y"
  using assms by simp_all

lemma b64_group1: "a div 4 * 4 + a mod 4 * 16 div 16 = (a::nat)"
  by simp

lemma b64_group2:
  fixes a b :: nat
  assumes "b < 256"
  shows "a div 4 * 4 + (a mod 4 * 16 + b div 16) div 16 = a"
    and "(a mod 4 * 16 + b div 16) mod 16 * 16 + b mod 16 * 4 div 4 = b"
proof -
  have b: "b div 16 < 16" using assms by simp
  show "a div 4 * 4 + (a mod 4 * 16 + b div 16) div 16 = a"
    unfolding divmod_shift [OF b] by simp
  show "(a mod 4 * 16 + b div 16) mod 16 * 16 + b mod 16 * 4 div 4 = b"
    unfolding divmod_shift [OF b] by simp
qed

lemma b64_group3:
  fixes a b c :: nat
  assumes "b < 256" "c < 256"
  shows "a div 4 * 4 + (a mod 4 * 16 + b div 16) div 16 = a"
    and "(a mod 4 * 16 + b div 16) mod 16 * 16 + (b mod 16 * 4 + c div 64) div 4 = b"
    and "(b mod 16 * 4 + c div 64) mod 4 * 64 + c mod 64 = c"
proof -
  have b: "b div 16 < 16" using assms by simp
  have c: "c div 64 < 4" using assms by simp
  show "a div 4 * 4 + (a mod 4 * 16 + b div 16) div 16 = a"
    unfolding divmod_shift [OF b] by simp
  show "(a mod 4 * 16 + b div 16) mod 16 * 16 + (b mod 16 * 4 + c div 64) div 4 = b"
    unfolding divmod_shift [OF b] divmod_shift [OF c] by simp
  show "(b mod 16 * 4 + c div 64) mod 4 * 64 + c mod 64 = c"
    unfolding divmod_shift [OF c] by simp
qed

lemma b64_roundtrip_nat:
  assumes "\<forall>n\<in>set ns. n < 256"
  shows "b64_ok (strip_padding (b64_encode ns)) ns"
  using assms
proof (induction ns rule: b64_encode.induct)
  case 1
  then show ?case by (simp add: b64_ok_def strip_padding_def)
next
  case (2 a)
  then have a: "a < 256" by simp
  then have i: "a div 4 < 64" "a mod 4 * 16 < 64" by auto
  have sp: "strip_padding (b64_encode [a]) = [b64_char (a div 4), b64_char (a mod 4 * 16)]"
    by (simp add: strip_padding_def)
  show ?case
    unfolding sp b64_ok_def using i b64_group1 [of a] by (simp add: b64_index_char)
next
  case (3 a b)
  then have ab: "a < 256" "b < 256" by simp_all
  then have i: "a div 4 < 64" "a mod 4 * 16 + b div 16 < 64" "b mod 16 * 4 < 64" by auto
  have sp: "strip_padding (b64_encode [a, b])
      = [b64_char (a div 4), b64_char (a mod 4 * 16 + b div 16), b64_char (b mod 16 * 4)]"
    using b64_char_bounds [OF i(3)] by (simp add: strip_padding_def)
  show ?case
    unfolding sp b64_ok_def using i b64_group2 [OF ab(2), of a] by (simp add: b64_index_char)
next
  case (4 a b c rest)
  then have abc: "a < 256" "b < 256" "c < 256" by simp_all
  then have i: "a div 4 < 64" "a mod 4 * 16 + b div 16 < 64" "b mod 16 * 4 + c div 64 < 64"
    "c mod 64 < 64" by auto
  have ih: "b64_ok (strip_padding (b64_encode rest)) rest" using 4 by simp
  have sp: "strip_padding (b64_encode (a # b # c # rest))
      = b64_char (a div 4) # b64_char (a mod 4 * 16 + b div 16)
        # b64_char (b mod 16 * 4 + c div 64) # b64_char (c mod 64)
        # strip_padding (b64_encode rest)"
    using strip_padding_cons4 [OF length_b64_encode] b64_char_bounds [OF i(4)] by simp
  show ?case
    unfolding sp using ih i b64_group3 [OF abc(2,3)] by (simp add: b64_ok_def b64_index_char mod_Suc)
qed

lemma unat_of_nat_jschar: "n < 65536 \<Longrightarrow> unat (of_nat n :: jschar) = n"
  by (simp add: unat_of_nat)

lemma unat_of_nat_byte: "n < 256 \<Longrightarrow> unat (of_nat n :: byte) = n"
  by (simp add: unat_of_nat)

lemma map_unat_of_nat_jschar:
  "\<forall>n\<in>set ns. n < 65536 \<Longrightarrow> map unat (map of_nat ns :: jsstring) = ns"
  by (induction ns) (simp_all add: unat_of_nat_jschar)

lemma not_ws_of_nat: "0x2B \<le> n \<Longrightarrow> n < 128 \<Longrightarrow> \<not> is_ascii_ws (of_nat n)"
proof -
  assume a: "0x2B \<le> n" "n < 128"
  have "unat (of_nat n :: jschar) = n" using a by (simp add: unat_of_nat_jschar)
  then have "unat (of_nat n :: jschar) \<noteq> unat (c :: jschar)" if "unat c < 0x2B" for c
    using a that by simp
  then have "(of_nat n :: jschar) \<noteq> c" if "unat c < 0x2B" for c
    using that by auto
  from this [of 9] this [of 10] this [of 12] this [of 13] this [of 32]
  show ?thesis by (simp add: is_ascii_ws_def)
qed

lemma atob_encode:
  assumes "\<forall>n\<in>set ns. n < 256"
  shows "atob (map of_nat (b64_encode ns)) = Inr (map of_nat ns)"
proof -
  let ?e = "b64_encode ns"
  have r: "\<forall>c\<in>set ?e. 0x2B \<le> c \<and> c < 128"
    using b64_encode_range [OF assms] .
  then have f: "filter (\<lambda>c. \<not> is_ascii_ws c) (map of_nat ?e :: jsstring) = map of_nat ?e"
    by (auto simp: filter_id_conv not_ws_of_nat)
  have "\<forall>c\<in>set ?e. c < 65536" using r by auto
  then have u: "map unat (map of_nat ?e :: jsstring) = ?e"
    by (rule map_unat_of_nat_jschar)
  have ok: "b64_ok (strip_padding ?e) ns" using b64_roundtrip_nat [OF assms] .
  then have "\<not> list_ex (\<lambda>c. b64_index c = None) (strip_padding ?e)"
    by (auto simp: b64_ok_def list_ex_iff)
  then show ?thesis
    using ok unfolding atob_def f u by (simp add: b64_ok_def Let_def)
qed

lemma base64_roundtrip:
  assumes "arrayBufferToBase64 bytes = Inr s"
  shows "base64ToArrayBuffer pf (Str s) = Inr bytes"
proof -
  have s: "s = map of_nat (b64_encode (map unat bytes))"
    using assms by (simp add: arrayBufferToBase64_eq)
  have "\<forall>n\<in>set (map unat bytes). n < 256"
    using unat_byte_less by auto
  then have a: "atob s = Inr (map of_nat (map unat bytes))"
    unfolding s by (rule atob_encode)
  have "map ucast (map of_nat (map unat bytes) :: jsstring) = bytes"
  proof -
    have "(ucast (of_nat (unat b) :: jschar) :: byte) = b" for b :: byte
    proof -
      have "unat (ucast (of_nat (unat b) :: jschar) :: byte) = unat b"
        using unat_byte_less [of b]
        by (simp add: unsigned_ucast_eq unat_of_nat take_bit_nat_eq_self take_bit_word_eq_self)
      then show ?thesis by (simp only: word_unat_eq_iff)
    qed
    then show ?thesis by (simp add: map_idI)
  qed
  then show ?thesis
    by (simp add: base64ToArrayBuffer_def a del: map_map)
qed

section \<open>Properties of the text coding\<close>

declare utf8_decoder.simps [simp del]

abbreviation utf8_start :: "nat list \<Rightarrow> nat list" where
  "utf8_start \<equiv> utf8_decoder 0 0 0 0x80 0xBF"

lemma step_ascii:
  "b \<le> 0x7F \<Longrightarrow> utf8_decoder cp seen 0 lo hi (b # bs) = b # utf8_start bs"
  by (subst utf8_decoder.simps) simp

lemma step_lead2:
  "0xC2 \<le> b \<Longrightarrow> b \<le> 0xDF \<Longrightarrow>
   utf8_decoder cp seen 0 lo hi (b # bs) = utf8_decoder (b mod 32) 0 1 0x80 0xBF bs"
  by (subst utf8_decoder.simps) simp

lemma step_lead3:
  "0xE0 \<le> b \<Longrightarrow> b \<le> 0xEF \<Longrightarrow>
   utf8_decoder cp seen 0 lo hi (b # bs) =
     utf8_decoder (b mod 16) 0 2 (if b = 0xE0 then 0xA0 else 0x80)
       (if b = 0xED then 0x9F else 0xBF) bs"
  by (subst utf8_decoder.simps) simp

lemma step_lead4:
  "0xF0 \<le> b \<Longrightarrow> b \<le> 0xF4 \<Longrightarrow>
   utf8_decoder cp seen 0 lo hi (b # bs) =
     utf8_decoder (b mod 8) 0 3 (if b = 0xF0 then 0x90 else 0x80)
       (if b = 0xF4 then 0x8F else 0xBF) bs"
  by (subst utf8_decoder.simps) simp

lemma step_more:
  "needed \<noteq> 0 \<Longrightarrow> lo \<le> b \<Longrightarrow> b \<le> hi \<Longrightarrow> seen + 1 \<noteq> needed \<Longrightarrow>
   utf8_decoder cp seen needed lo hi (b # bs) =
     utf8_decoder (cp * 64 + b mod 64) (seen + 1) needed 0x80 0xBF bs"
  by (subst utf8_decoder.simps) simp

lemma step_last:
  "needed \<noteq> 0 \<Longrightarrow> lo \<le> b \<Longrightarrow> b \<le> hi \<Longrightarrow> seen + 1 = needed \<Longrightarrow>
   utf8_decoder cp seen needed lo hi (b # bs) = (cp * 64 + b mod 64) # utf8_start bs"
  by (subst utf8_decoder.simps) simp

lemma mod_plus:
  fixes d :: nat
  assumes "m mod k = 0" and "d < k"
  shows "(m + d) mod k = d"
proof -
  have "(m + d) mod k = (m mod k + d) mod k" by (simp add: mod_add_left_eq)
  then show ?thesis using assms by simp
qed

lemma divmod_shift':
  fixes x y :: nat
  assumes "y < k"
  shows "(x * k + y) div k = x" and "(x * k + y) mod k = y"
  using assms by simp_all

lemma split64: "(x::nat) = x div 64 * 64 + x mod 64" "x mod 64 < 64"
  by simp_all

lemma dec2:
  assumes "0x80 \<le> cp" "cp < 0x800"
  shows "utf8_start ((0xC0 + cp div 64) # (0x80 + cp mod 64) # rest) = cp # utf8_start rest"
proof -
  define d c where "d = cp div 64" and "c = cp mod 64"
  have cp: "cp = d * 64 + c" and c: "c < 64" unfolding d_def c_def by simp_all
  have d: "2 \<le> d" "d < 32" using assms cp c by linarith+
  have m: "(0xC0 + d) mod 32 = d" using d by (intro mod_plus) simp_all
  have m2: "(0x80 + c) mod 64 = c" using c by (intro mod_plus) simp_all
  have "utf8_start ((0xC0 + d) # (0x80 + c) # rest)
      = utf8_decoder d 0 1 0x80 0xBF ((0x80 + c) # rest)"
    using d by (subst step_lead2) (simp_all add: m)
  also have "\<dots> = (d * 64 + c) # utf8_start rest"
    using c by (subst step_last) (simp_all add: m2)
  finally have "utf8_start ((0xC0 + d) # (0x80 + c) # rest) = cp # utf8_start rest"
    by (simp only: cp [symmetric])
  then show ?thesis by (simp only: d_def c_def)
qed

lemma dec3:
  assumes "0x800 \<le> cp" "cp < 0x10000" "\<not> (0xD800 \<le> cp \<and> cp \<le> 0xDFFF)"
  shows "utf8_start ((0xE0 + cp div 4096) # (0x80 + cp div 64 mod 64) # (0x80 + cp mod 64) # rest)
           = cp # utf8_start rest"
proof -
  define a b c where "a = cp div 4096" and "b = cp div 64 mod 64" and "c = cp mod 64"
  have "cp div 64 = cp div 64 div 64 * 64 + b" unfolding b_def by simp
  moreover have "cp div 64 div 64 = a" unfolding a_def by (simp add: div_mult2_eq [symmetric])
  moreover have "cp = cp div 64 * 64 + c" unfolding c_def by simp
  ultimately have cp: "cp = (a * 64 + b) * 64 + c" by simp
  have bc: "b < 64" "c < 64" unfolding b_def c_def by simp_all
  have cp': "cp = a * 4096 + b * 64 + c" using cp by simp
  have a: "a < 16" using assms cp' bc by linarith
  have lo: "a = 0 \<Longrightarrow> 0x20 \<le> b" using assms(1) cp' bc by linarith
  have hi: "a = 13 \<Longrightarrow> b < 0x20" using assms(3) cp' bc by linarith
  have ma: "(0xE0 + a) mod 16 = a" using a by (intro mod_plus) simp_all
  have mb: "(0x80 + b) mod 64 = b" using bc by (intro mod_plus) simp_all
  have mc: "(0x80 + c) mod 64 = c" using bc by (intro mod_plus) simp_all
  have "utf8_start ((0xE0 + a) # (0x80 + b) # (0x80 + c) # rest)
      = utf8_decoder a 0 2 (if a = 0 then 0xA0 else 0x80) (if a = 13 then 0x9F else 0xBF)
          ((0x80 + b) # (0x80 + c) # rest)"
    using a by (subst step_lead3) (simp_all add: ma)
  also have "\<dots> = utf8_decoder (a * 64 + b) 1 2 0x80 0xBF ((0x80 + c) # rest)"
    using lo hi bc by (subst step_more) (auto simp: mb)
  also have "\<dots> = ((a * 64 + b) * 64 + c) # utf8_start rest"
    using bc by (subst step_last) (simp_all add: mc)
  finally have "utf8_start ((0xE0 + a) # (0x80 + b) # (0x80 + c) # rest) = cp # utf8_start rest"
    by (simp only: cp [symmetric])
  then show ?thesis by (simp only: a_def b_def c_def)
qed

lemma dec4:
  assumes "0x10000 \<le> cp" "cp < 0x110000"
  shows "utf8_start ((0xF0 + cp div 262144) # (0x80 + cp div 4096 mod 64)
            # (0x80 + cp div 64 mod 64) # (0x80 + cp mod 64) # rest)
           = cp # utf8_start rest"
proof -
  define z a b c where "z = cp div 262144" and "a = cp div 4096 mod 64"
    and "b = cp div 64 mod 64" and "c = cp mod 64"
  have "cp div 64 = cp div 64 div 64 * 64 + b" unfolding b_def by simp
  moreover have "cp div 64 div 64 = cp div 4096" by (simp add: div_mult2_eq [symmetric])
  moreover have "cp div 4096 = cp div 4096 div 64 * 64 + a" unfolding a_def by simp
  moreover have "cp div 4096 div 64 = z" unfolding z_def by (simp add: div_mult2_eq [symmetric])
  moreover have "cp = cp div 64 * 64 + c" unfolding c_def by simp
  ultimately have cp: "cp = ((z * 64 + a) * 64 + b) * 64 + c" by simp
  have abc: "a < 64" "b < 64" "c < 64" unfolding a_def b_def c_def by simp_all
  have cp': "cp = z * 262144 + a * 4096 + b * 64 + c" using cp by simp
  have z: "z < 5" using assms cp' abc by linarith
  have lo: "z = 0 \<Longrightarrow> 0x10 \<le> a" using assms(1) cp' abc by linarith
  have hi: "z = 4 \<Longrightarrow> a < 0x10" using assms(2) cp' abc by linarith
  have mz: "(0xF0 + z) mod 8 = z" using z by (intro mod_plus) simp_all
  have ma: "(0x80 + a) mod 64 = a" using abc by (intro mod_plus) simp_all
  have mb: "(0x80 + b) mod 64 = b" using abc by (intro mod_plus) simp_all
  have mc: "(0x80 + c) mod 64 = c" using abc by (intro mod_plus) simp_all
  have "utf8_start ((0xF0 + z) # (0x80 + a) # (0x80 + b) # (0x80 + c) # rest)
      = utf8_decoder z 0 3 (if z = 0 then 0x90 else 0x80) (if z = 4 then 0x8F else 0xBF)
          ((0x80 + a) # (0x80 + b) # (0x80 + c) # rest)"
    using z by (subst step_lead4) (simp_all add: mz)
  also have "\<dots> = utf8_decoder (z * 64 + a) 1 3 0x80 0xBF ((0x80 + b) # (0x80 + c) # rest)"
    using lo hi abc by (subst step_more) (auto simp: ma)
  also have "\<dots> = utf8_decoder ((z * 64 + a) * 64 + b) 2 3 0x80 0xBF ((0x80 + c) # rest)"
    using abc by (subst step_more) (simp_all add: mb numeral_2_eq_2 [symmetric])
  also have "\<dots> = (((z * 64 + a) * 64 + b) * 64 + c) # utf8_start rest"
    using abc by (subst step_last) (simp_all add: mc)
  finally have "utf8_start ((0xF0 + z) # (0x80 + a) # (0x80 + b) # (0x80 + c) # rest)
      = cp # utf8_start rest"
    by (simp only: cp [symmetric])
  then show ?thesis by (simp only: z_def a_def b_def c_def)
qed

lemma decode_scalar:
  assumes "scalar cp"
  shows "utf8_start (utf8_encode_scalar cp @ rest) = cp # utf8_start rest"
proof -
  consider "cp < 0x80" | "0x80 \<le> cp" "cp < 0x800" | "0x800 \<le> cp" "cp < 0x10000"
    | "0x10000 \<le> cp" by linarith
  then show ?thesis
  proof cases
    case 1
    then show ?thesis using step_ascii [of cp] by (simp add: utf8_encode_scalar_def)
  next
    case 2
    then show ?thesis using dec2 [OF 2] by (simp add: utf8_encode_scalar_def)
  next
    case 3
    then show ?thesis using dec3 [OF 3] assms by (simp add: utf8_encode_scalar_def scalar_def)
  next
    case 4
    then show ?thesis using dec4 [OF 4] assms by (simp add: utf8_encode_scalar_def scalar_def)
  qed
qed

lemma decode_scalars:
  "\<forall>cp\<in>set cps. scalar cp \<Longrightarrow> utf8_start (concat (map utf8_encode_scalar cps)) = cps"
  by (induction cps) (simp_all add: decode_scalar utf8_decoder.simps)

lemma high_surrogate_nat: "is_high_surrogate c \<longleftrightarrow> 0xD800 \<le> unat c \<and> unat c \<le> 0xDBFF"
  by (simp add: is_high_surrogate_def word_le_nat_alt)

lemma low_surrogate_nat: "is_low_surrogate c \<longleftrightarrow> 0xDC00 \<le> unat c \<and> unat c \<le> 0xDFFF"
  by (simp add: is_low_surrogate_def word_le_nat_alt)

lemma unat_jschar_less: "unat (c :: jschar) < 65536"
  using unsigned_less [of c, where ?'a = nat] by simp

lemma pair_value:
  assumes "is_high_surrogate c" "is_low_surrogate d"
  shows "scalar (0x10000 + (unat c - 0xD800) * 0x400 + (unat d - 0xDC00))"
    and "0x10000 \<le> 0x10000 + (unat c - 0xD800) * 0x400 + (unat d - 0xDC00)"
  using assms by (auto simp: scalar_def high_surrogate_nat low_surrogate_nat)

lemma plain_value:
  assumes "\<not> is_high_surrogate c" "\<not> is_low_surrogate c"
  shows "scalar (unat c)"
  using assms unat_jschar_less [of c]
  by (auto simp: scalar_def high_surrogate_nat low_surrogate_nat)

lemma scalar_replacement: "scalar 0xFFFD"
  by (simp add: scalar_def)

lemma to_scalars_scalar: "\<forall>cp\<in>set (to_scalars s). scalar cp"
  by (induction s rule: to_scalars.induct)
    (auto simp: pair_value plain_value scalar_replacement)

lemma utf8_bytes_small: "scalar cp \<Longrightarrow> \<forall>b\<in>set (utf8_encode_scalar cp). b < 256"
  by (auto simp: utf8_encode_scalar_def scalar_def)

lemma utf8_all_bytes_small:
  "\<forall>cp\<in>set cps. scalar cp \<Longrightarrow> \<forall>b\<in>set (concat (map utf8_encode_scalar cps)). b < 256"
  using utf8_bytes_small by auto

lemma map_unat_of_nat_bytes:
  "\<forall>n\<in>set ns. n < 256 \<Longrightarrow> map unat (map of_nat ns :: byte list) = ns"
  by (induction ns) (simp_all add: unat_of_nat)

lemma strip_bom_other: "b1 \<noteq> 0xEF \<Longrightarrow> strip_bom (b1 # bs) = b1 # bs"
  by (simp add: strip_bom_def split: list.splits)

lemma strip_bom_three:
  "\<not> (b1 = 0xEF \<and> b2 = 0xBB \<and> b3 = 0xBF) \<Longrightarrow>
   strip_bom (b1 # b2 # b3 # bs) = b1 # b2 # b3 # bs"
  by (simp add: strip_bom_def)

lemma no_bom_scalar:
  assumes "scalar cp" "cp \<noteq> 0xFEFF"
  shows "strip_bom (utf8_encode_scalar cp @ bs) = utf8_encode_scalar cp @ bs"
proof -
  consider "cp < 0x80" | "0x80 \<le> cp" "cp < 0x800" | "0x800 \<le> cp" "cp < 0x10000"
    | "0x10000 \<le> cp" by linarith
  then show ?thesis
  proof cases
    case 1
    then show ?thesis by (simp add: utf8_encode_scalar_def strip_bom_other)
  next
    case 2
    then have "cp div 64 < 32" by simp
    then have "0xC0 + cp div 64 \<noteq> 0xEF" by linarith
    then show ?thesis using 2 by (simp add: utf8_encode_scalar_def strip_bom_other)
  next
    case 3
    define a b c where "a = cp div 4096" and "b = cp div 64 mod 64" and "c = cp mod 64"
    have "cp div 64 = cp div 64 div 64 * 64 + b" unfolding b_def by simp
    moreover have "cp div 64 div 64 = a" unfolding a_def by (simp add: div_mult2_eq [symmetric])
    moreover have "cp = cp div 64 * 64 + c" unfolding c_def by simp
    ultimately have cp: "cp = a * 4096 + b * 64 + c" by simp
    have "\<not> (0xE0 + a = 0xEF \<and> 0x80 + b = 0xBB \<and> 0x80 + c = 0xBF)"
      using cp assms(2) by auto
    then have "strip_bom ((0xE0 + a) # (0x80 + b) # (0x80 + c) # bs)
        = (0xE0 + a) # (0x80 + b) # (0x80 + c) # bs"
      by (rule strip_bom_three)
    then show ?thesis using 3 by (simp add: utf8_encode_scalar_def a_def b_def c_def)
  next
    case 4
    then show ?thesis by (simp add: utf8_encode_scalar_def strip_bom_other)
  qed
qed

lemma to_scalars_head:
  assumes "hd s \<noteq> 0xFEFF" "s \<noteq> []"
  shows "\<exists>cp cps. to_scalars s = cp # cps \<and> cp \<noteq> 0xFEFF"
proof -
  have u: "unat (hd s) \<noteq> 0xFEFF"
  proof
    assume "unat (hd s) = 0xFEFF"
    then have "unat (hd s) = unat (0xFEFF :: jschar)" by simp
    then have "hd s = 0xFEFF" by (simp only: word_unat_eq_iff)
    then show False using assms by simp
  qed
  show ?thesis
  proof (cases s rule: to_scalars.cases)
    case 1
    then show ?thesis using assms by simp
  next
    case (2 c)
    then show ?thesis using u by simp
  next
    case (3 c d cs)
    then show ?thesis using u by (simp add: high_surrogate_nat)
  qed
qed

lemma no_bom_text:
  assumes "s = [] \<or> hd s \<noteq> 0xFEFF"
  shows "strip_bom (concat (map utf8_encode_scalar (to_scalars s)))
           = concat (map utf8_encode_scalar (to_scalars s))"
proof (cases "s = []")
  case True
  then show ?thesis by (simp add: strip_bom_def)
next
  case False
  then obtain cp cps where t: "to_scalars s = cp # cps" and n: "cp \<noteq> 0xFEFF"
    using to_scalars_head assms by blast
  have "scalar cp" using to_scalars_scalar [of s] t by simp
  then show ?thesis unfolding t using n by (simp add: no_bom_scalar)
qed

lemma of_nat_unat_jschar: "(of_nat (unat c) :: jschar) = c"
  by simp

lemma utf16_roundtrip:
  "well_formed s \<Longrightarrow> map of_nat (concat (map utf16_units (to_scalars s))) = s"
proof (induction s rule: to_scalars.induct)
  case 1
  then show ?case by simp
next
  case (2 c)
  then show ?case using unat_jschar_less [of c] by (simp add: utf16_units_def)
next
  case (3 c d cs)
  show ?case
  proof (cases "is_high_surrogate c")
    case True
    then have low: "is_low_surrogate d" and wf: "well_formed cs" using "3.prems" by simp_all
    define h l where "h = unat c - 0xD800" and "l = unat d - 0xDC00"
    have l: "l < 0x400" using low unfolding l_def low_surrogate_nat by linarith
    have hc: "0xD800 + h = unat c" using True unfolding h_def high_surrogate_nat by linarith
    have ld: "0xDC00 + l = unat d" using low unfolding l_def low_surrogate_nat by linarith
    have u: "utf16_units (0x10000 + h * 0x400 + l) = [unat c, unat d]"
      using divmod_shift' [OF l, of h] hc ld by (simp add: utf16_units_def)
    show ?thesis
      using True low wf "3.IH" u by (simp add: h_def l_def)
  next
    case False
    then have nl: "\<not> is_low_surrogate c" and wf: "well_formed (d # cs)" using "3.prems" by simp_all
    show ?thesis
      using False nl wf "3.IH" unat_jschar_less [of c] by (simp add: utf16_units_def)
  qed
qed

lemma text_roundtrip:
  assumes "well_formed s" and "s = [] \<or> hd s \<noteq> 0xFEFF"
  shows "TextDecoder_decode (TextEncoder_encode s) = s"
proof -
  let ?bytes = "concat (map utf8_encode_scalar (to_scalars s))"
  have "\<forall>b\<in>set ?bytes. b < 256"
    using utf8_all_bytes_small [OF to_scalars_scalar] .
  then have m: "map unat (map of_nat ?bytes :: byte list) = ?bytes"
    by (rule map_unat_of_nat_bytes)
  have d: "utf8_start ?bytes = to_scalars s"
    using decode_scalars [OF to_scalars_scalar] .
  show ?thesis
    unfolding TextDecoder_decode_def TextEncoder_encode_def m no_bom_text [OF assms(2)] d
    using utf16_roundtrip [OF assms(1)] .
qed

section \<open>Properties of the JSON text\<close>

lemma unat_jschar_less': "unat (c :: jschar) < 65536"
  using unsigned_less [of c, where ?'a = nat] by simp

lemma unat_hex_digit:
  assumes "d < 16"
  shows "unat (hex_digit d) = (if d < 10 then 0x30 + d else 0x61 + (d - 10))"
proof (cases "d < 10")
  case True
  have "unat (of_nat (0x30 + d) :: jschar) = 0x30 + d"
    using True by (subst unat_of_nat) simp
  then show ?thesis using True by (simp only: hex_digit_def if_True)
next
  case False
  have "unat (of_nat (0x61 + (d - 10)) :: jschar) = 0x61 + (d - 10)"
    using assms by (subst unat_of_nat) simp
  then show ?thesis using False by (simp only: hex_digit_def if_False)
qed

lemma hex_value_digit: "d < 16 \<Longrightarrow> hex_value (hex_digit d) = Some d"
  unfolding hex_value_def word_le_nat_alt
  by (simp only: unat_hex_digit) (auto split: if_splits)

lemma hex_split:
  fixes n :: nat
  shows "((n div 4096 * 16 + n div 256 mod 16) * 16 + n div 16 mod 16) * 16 + n mod 16 = n"
proof -
  have a: "n div 16 div 16 = n div 256" by (simp add: div_mult2_eq [symmetric])
  have b: "n div 256 div 16 = n div 4096" by (simp add: div_mult2_eq [symmetric])
  have "n div 256 = n div 4096 * 16 + n div 256 mod 16"
    using div_mult_mod_eq [of "n div 256" 16] unfolding b by simp
  moreover have "n div 16 = n div 256 * 16 + n div 16 mod 16"
    using div_mult_mod_eq [of "n div 16" 16] unfolding a by simp
  moreover have "n = n div 16 * 16 + n mod 16" by simp
  ultimately show ?thesis by simp
qed

lemma hex4_escape:
  "hex4 (hex_digit (unat c div 4096)) (hex_digit (unat c div 256 mod 16))
     (hex_digit (unat c div 16 mod 16)) (hex_digit (unat c mod 16)) = Some c"
proof -
  have "unat c div 4096 < 16" using unat_jschar_less' [of c] by simp
  then have v: "hex_value (hex_digit (unat c div 4096)) = Some (unat c div 4096)"
    "hex_value (hex_digit (unat c div 256 mod 16)) = Some (unat c div 256 mod 16)"
    "hex_value (hex_digit (unat c div 16 mod 16)) = Some (unat c div 16 mod 16)"
    "hex_value (hex_digit (unat c mod 16)) = Some (unat c mod 16)"
    by (simp_all add: hex_value_digit)
  show ?thesis
    unfolding hex4_def v
    by (simp only: prod.case option.case hex_split of_nat_unat ucast_id)
qed

lemma parse_unicode_escape:
  "parse_string_chars (unicode_escape c @ t) = cons_result c (parse_string_chars t)"
  by (simp add: unicode_escape_def hex4_escape)

lemma parse_plain:
  "c \<noteq> QUOTE \<Longrightarrow> c \<noteq> BACKSLASH \<Longrightarrow> \<not> c < 0x20 \<Longrightarrow>
   parse_string_chars (c # t) = cons_result c (parse_string_chars t)"
  by simp

lemma surrogate_plain:
  assumes "is_high_surrogate c \<or> is_low_surrogate c"
  shows "c \<noteq> QUOTE" "c \<noteq> BACKSLASH" "\<not> c < 0x20"
  using assms
  by (auto simp: is_high_surrogate_def is_low_surrogate_def word_le_nat_alt word_less_nat_alt)

lemma parse_simple_escapes:
  "parse_string_chars (BACKSLASH # 0x62 # t) = cons_result 0x08 (parse_string_chars t)"
  "parse_string_chars (BACKSLASH # 0x74 # t) = cons_result 0x09 (parse_string_chars t)"
  "parse_string_chars (BACKSLASH # 0x6E # t) = cons_result 0x0A (parse_string_chars t)"
  "parse_string_chars (BACKSLASH # 0x66 # t) = cons_result 0x0C (parse_string_chars t)"
  "parse_string_chars (BACKSLASH # 0x72 # t) = cons_result 0x0D (parse_string_chars t)"
  "parse_string_chars (BACKSLASH # QUOTE # t) = cons_result QUOTE (parse_string_chars t)"
  "parse_string_chars (BACKSLASH # BACKSLASH # t) = cons_result BACKSLASH (parse_string_chars t)"
  by (simp_all add: simple_escape_def)

declare parse_string_chars.simps [simp del]

lemma parse_quoted:
  "parse_string_chars (quote_chars s @ QUOTE # rest) = Some (s, rest)"
proof (induction s arbitrary: rest rule: length_induct)
  case (1 s)
  show ?case
  proof (cases s)
    case Nil
    then show ?thesis by (simp add: parse_string_chars.simps)
  next
    case (Cons c cs)
    have ih: "parse_string_chars (quote_chars cs @ QUOTE # rest) = Some (cs, rest)"
      using 1 Cons by simp
    consider (c_bs) "c = 0x08" | (c_tab) "c = 0x09" | (c_nl) "c = 0x0A" | (c_ff) "c = 0x0C"
      | (c_cr) "c = 0x0D" | (c_quote) "c = QUOTE" | (c_back) "c = BACKSLASH"
      | (c_other) "c \<noteq> 0x08" "c \<noteq> 0x09" "c \<noteq> 0x0A" "c \<noteq> 0x0C" "c \<noteq> 0x0D" "c \<noteq> QUOTE"
          "c \<noteq> BACKSLASH"
      by blast
    then show ?thesis
    proof cases
      case c_bs
      have "quote_chars (c # cs) = BACKSLASH # 0x62 # quote_chars cs" using c_bs by simp
      then show ?thesis using ih c_bs Cons by (simp add: parse_simple_escapes)
    next
      case c_tab
      have "quote_chars (c # cs) = BACKSLASH # 0x74 # quote_chars cs" using c_tab by simp
      then show ?thesis using ih c_tab Cons by (simp add: parse_simple_escapes)
    next
      case c_nl
      have "quote_chars (c # cs) = BACKSLASH # 0x6E # quote_chars cs" using c_nl by simp
      then show ?thesis using ih c_nl Cons by (simp add: parse_simple_escapes)
    next
      case c_ff
      have "quote_chars (c # cs) = BACKSLASH # 0x66 # quote_chars cs" using c_ff by simp
      then show ?thesis using ih c_ff Cons by (simp add: parse_simple_escapes)
    next
      case c_cr
      have "quote_chars (c # cs) = BACKSLASH # 0x72 # quote_chars cs" using c_cr by simp
      then show ?thesis using ih c_cr Cons by (simp add: parse_simple_escapes)
    next
      case c_quote
      have "quote_chars (c # cs) = BACKSLASH # QUOTE # quote_chars cs" using c_quote by simp
      then show ?thesis using ih c_quote Cons by (simp add: parse_simple_escapes)
    next
      case c_back
      have "quote_chars (c # cs) = BACKSLASH # BACKSLASH # quote_chars cs" using c_back by simp
      then show ?thesis using ih c_back Cons by (simp add: parse_simple_escapes)
    next
      case c_other
      have q: "quote_chars (c # cs) =
          (if c < 0x20 then unicode_escape c @ quote_chars cs
           else if is_high_surrogate c then
             (case cs of
                [] \<Rightarrow> unicode_escape c
              | d # ds \<Rightarrow>
                  if is_low_surrogate d then c # d # quote_chars ds
                  else unicode_escape c @ quote_chars cs)
           else if is_low_surrogate c then unicode_escape c @ quote_chars cs
           else c # quote_chars cs)"
        using c_other by simp
      have esc: "parse_string_chars ((unicode_escape c @ quote_chars cs) @ QUOTE # rest)
          = Some (c # cs, rest)"
        using ih by (simp add: parse_unicode_escape)
      show ?thesis
      proof (cases "c < 0x20")
        case True
        then show ?thesis using q esc Cons by simp
      next
        case nctl: False
        note plain = parse_plain [OF c_other(6,7) nctl]
        show ?thesis
        proof (cases "is_high_surrogate c")
          case True
          show ?thesis
          proof (cases cs)
            case Nil
            have "parse_string_chars (unicode_escape c @ QUOTE # rest) = Some ([c], rest)"
              by (simp add: parse_unicode_escape parse_string_chars.simps)
            then show ?thesis using q nctl True Nil Cons by simp
          next
            case ds: (Cons d ds)
            show ?thesis
            proof (cases "is_low_surrogate d")
              case low: True
              have "length ds < length s" using Cons ds by simp
              then have "parse_string_chars (quote_chars ds @ QUOTE # rest) = Some (ds, rest)"
                using 1 by blast
              then have "parse_string_chars (c # d # quote_chars ds @ QUOTE # rest)
                  = Some (c # d # ds, rest)"
                using plain parse_plain [OF surrogate_plain [of d], of "quote_chars ds @ QUOTE # rest"]
                  low by simp
              then show ?thesis using q nctl True ds low Cons by simp
            next
              case False
              then show ?thesis using q nctl True ds esc Cons by simp
            qed
          qed
        next
          case nh: False
          show ?thesis
          proof (cases "is_low_surrogate c")
            case True
            then show ?thesis using q nctl nh esc Cons by simp
          next
            case False
            have "parse_string_chars (c # quote_chars cs @ QUOTE # rest) = Some (c # cs, rest)"
              using plain ih by simp
            then show ?thesis using q nctl nh False Cons by simp
          qed
        qed
      qed
    qed
  qed
qed

lemma quote_ascii_keys:
  "quote_chars (js ''title'') = js ''title''" "quote_chars (js ''username'') = js ''username''"
  "quote_chars (js ''password'') = js ''password''" "quote_chars (js ''url'') = js ''url''"
  "quote_chars (js ''notes'') = js ''notes''" "quote_chars (js ''encrypted'') = js ''encrypted''"
  "quote_chars (js ''salt'') = js ''salt''" "quote_chars (js ''iv'') = js ''iv''"
  "quote_chars (js ''version'') = js ''version''" "quote_chars (js ''timestamp'') = js ''timestamp''"
  "quote_chars (js ''items'') = js ''items''"
  by (simp_all add: js_def is_high_surrogate_def is_low_surrogate_def)

lemma stringify_item: "JSON_stringify pf (VaultItem_to_js d) = Some (item_text d)"
  by (simp add: JSON_stringify_def VaultItem_to_js_def wrap_partial_def item_text_def
      QuoteJSONString_def quote_ascii_keys) (simp add: js_def)

lemma parse_key:
  "parse_string_chars (js ''title'' @ QUOTE # t) = Some (js ''title'', t)"
  "parse_string_chars (js ''username'' @ QUOTE # t) = Some (js ''username'', t)"
  "parse_string_chars (js ''password'' @ QUOTE # t) = Some (js ''password'', t)"
  "parse_string_chars (js ''url'' @ QUOTE # t) = Some (js ''url'', t)"
  "parse_string_chars (js ''notes'' @ QUOTE # t) = Some (js ''notes'', t)"
  "parse_string_chars (js ''encrypted'' @ QUOTE # t) = Some (js ''encrypted'', t)"
  "parse_string_chars (js ''salt'' @ QUOTE # t) = Some (js ''salt'', t)"
  "parse_string_chars (js ''iv'' @ QUOTE # t) = Some (js ''iv'', t)"
  "parse_string_chars (js ''version'' @ QUOTE # t) = Some (js ''version'', t)"
  "parse_string_chars (js ''timestamp'' @ QUOTE # t) = Some (js ''timestamp'', t)"
  "parse_string_chars (js ''items'' @ QUOTE # t) = Some (js ''items'', t)"
  using parse_quoted [of "js ''title''" t] parse_quoted [of "js ''username''" t]
    parse_quoted [of "js ''password''" t] parse_quoted [of "js ''url''" t]
    parse_quoted [of "js ''notes''" t] parse_quoted [of "js ''encrypted''" t]
    parse_quoted [of "js ''salt''" t] parse_quoted [of "js ''iv''" t]
    parse_quoted [of "js ''version''" t] parse_quoted [of "js ''timestamp''" t]
    parse_quoted [of "js ''items''" t]
  by (simp_all only: quote_ascii_keys)

lemma parse_item: "JSON_parse (item_text d) = Some (VaultItem_to_js d)"
  by (simp add: JSON_parse_def item_text_def QuoteJSONString_def js_def parse_quoted
      parse_string_chars.simps is_ws_def VaultItem_to_js_def)

section \<open>The round trip of a vault item\<close>

lemma wf_plain_cons:
  "\<not> is_high_surrogate c \<Longrightarrow> \<not> is_low_surrogate c \<Longrightarrow> well_formed (c # t) = well_formed t"
  by (cases t) simp_all

lemma wf_plain_append:
  "\<forall>c\<in>set xs. \<not> is_high_surrogate c \<and> \<not> is_low_surrogate c \<Longrightarrow>
   well_formed (xs @ t) = well_formed t"
  by (induction xs) (simp_all add: wf_plain_cons)

lemma hex_digit_plain:
  assumes "d < 16"
  shows "\<not> is_high_surrogate (hex_digit d) \<and> \<not> is_low_surrogate (hex_digit d)"
  using assms by (simp add: high_surrogate_nat low_surrogate_nat unat_hex_digit)

lemma unicode_escape_plain:
  "\<forall>x\<in>set (unicode_escape c). \<not> is_high_surrogate x \<and> \<not> is_low_surrogate x"
proof -
  have "unat c div 4096 < 16" using unat_jschar_less [of c] by simp
  then have "\<forall>d\<in>{unat c div 4096, unat c div 256 mod 16, unat c div 16 mod 16, unat c mod 16}.
      \<not> is_high_surrogate (hex_digit d) \<and> \<not> is_low_surrogate (hex_digit d)"
    using hex_digit_plain by simp
  then show ?thesis
    by (simp add: unicode_escape_def is_high_surrogate_def is_low_surrogate_def)
qed

lemma wf_escape: "well_formed (unicode_escape c @ t) = well_formed t"
  using unicode_escape_plain by (rule wf_plain_append)

lemma control_plain:
  assumes "c < 0x80"
  shows "\<not> is_high_surrogate c" "\<not> is_low_surrogate c"
  using assms by (simp_all add: high_surrogate_nat low_surrogate_nat word_less_nat_alt)

lemma wf_quote_chars: "well_formed (quote_chars s @ t) = well_formed t"
proof (induction s arbitrary: t rule: length_induct)
  case (1 s)
  show ?case
  proof (cases s)
    case Nil
    then show ?thesis by simp
  next
    case (Cons c cs)
    have ih: "well_formed (quote_chars cs @ t) = well_formed t"
      using 1 Cons by simp
    have two: "well_formed (BACKSLASH # e # quote_chars cs @ t) = well_formed t"
      if "e < 0x80" for e
      using ih that by (simp add: wf_plain_cons control_plain)
    consider (c_simple) "c = 0x08 \<or> c = 0x09 \<or> c = 0x0A \<or> c = 0x0C \<or> c = 0x0D \<or> c = QUOTE
          \<or> c = BACKSLASH"
      | (c_other) "c \<noteq> 0x08" "c \<noteq> 0x09" "c \<noteq> 0x0A" "c \<noteq> 0x0C" "c \<noteq> 0x0D" "c \<noteq> QUOTE"
          "c \<noteq> BACKSLASH"
      by blast
    then show ?thesis
    proof cases
      case c_simple
      then show ?thesis
        using two [of "0x62"] two [of "0x74"] two [of "0x6E"] two [of "0x66"] two [of "0x72"]
          two [of QUOTE] two [of BACKSLASH] Cons
        by auto
    next
      case c_other
      have q: "quote_chars (c # cs) =
          (if c < 0x20 then unicode_escape c @ quote_chars cs
           else if is_high_surrogate c then
             (case cs of
                [] \<Rightarrow> unicode_escape c
              | d # ds \<Rightarrow>
                  if is_low_surrogate d then c # d # quote_chars ds
                  else unicode_escape c @ quote_chars cs)
           else if is_low_surrogate c then unicode_escape c @ quote_chars cs
           else c # quote_chars cs)"
        using c_other by simp
      have esc: "well_formed ((unicode_escape c @ quote_chars cs) @ t) = well_formed t"
        using ih by (simp add: wf_escape)
      show ?thesis
      proof (cases "c < 0x20 \<or> (\<not> is_high_surrogate c \<and> is_low_surrogate c)")
        case True
        then show ?thesis using q esc Cons by auto
      next
        case n1: False
        show ?thesis
        proof (cases "is_high_surrogate c")
          case True
          show ?thesis
          proof (cases cs)
            case Nil
            then show ?thesis using q n1 True Cons wf_escape [of c t] by simp
          next
            case ds: (Cons d ds)
            show ?thesis
            proof (cases "is_low_surrogate d")
              case low: True
              have "length ds < length s" using Cons ds by simp
              then have "well_formed (quote_chars ds @ t) = well_formed t"
                using 1 by blast
              then show ?thesis using q n1 True ds low Cons by simp
            next
              case False
              then show ?thesis using q n1 True ds esc Cons by simp
            qed
          qed
        next
          case False
          then show ?thesis using q n1 ih Cons by (simp add: wf_plain_cons)
        qed
      qed
    qed
  qed
qed

lemma wf_QuoteJSONString: "well_formed (QuoteJSONString s @ t) = well_formed t"
proof -
  have "well_formed (QUOTE # quote_chars s @ QUOTE # t) = well_formed (quote_chars s @ QUOTE # t)"
    by (rule wf_plain_cons) (simp_all add: is_high_surrogate_def is_low_surrogate_def)
  also have "\<dots> = well_formed (QUOTE # t)" by (rule wf_quote_chars)
  also have "\<dots> = well_formed t"
    by (rule wf_plain_cons) (simp_all add: is_high_surrogate_def is_low_surrogate_def)
  finally show ?thesis by (simp add: QuoteJSONString_def)
qed

lemma js_plain_literals:
  "\<forall>c\<in>set (js ''{\"title\":''). \<not> is_high_surrogate c \<and> \<not> is_low_surrogate c"
  "\<forall>c\<in>set (js '',\"username\":''). \<not> is_high_surrogate c \<and> \<not> is_low_surrogate c"
  "\<forall>c\<in>set (js '',\"password\":''). \<not> is_high_surrogate c \<and> \<not> is_low_surrogate c"
  "\<forall>c\<in>set (js '',\"url\":''). \<not> is_high_surrogate c \<and> \<not> is_low_surrogate c"
  "\<forall>c\<in>set (js '',\"notes\":''). \<not> is_high_surrogate c \<and> \<not> is_low_surrogate c"
  by (simp_all add: js_def is_high_surrogate_def is_low_surrogate_def)

lemma wf_item: "well_formed (item_text d)"
proof -
  have "well_formed (js ''}'')" by (simp add: js_def is_high_surrogate_def is_low_surrogate_def)
  then show ?thesis
    unfolding item_text_def
    by (simp only: append_assoc wf_plain_append [OF js_plain_literals(1)]
        wf_plain_append [OF js_plain_literals(2)] wf_plain_append [OF js_plain_literals(3)]
        wf_plain_append [OF js_plain_literals(4)] wf_plain_append [OF js_plain_literals(5)]
        wf_QuoteJSONString)
qed

lemma hd_item: "item_text d = [] \<or> hd (item_text d) \<noteq> 0xFEFF"
  by (simp add: item_text_def js_def)

lemma deserialize_plaintext: "deserialize (vault_plaintext pf d) = Inr (VaultItem_to_js d)"
proof -
  have "vault_plaintext pf d = TextEncoder_encode (item_text d)"
    by (simp add: vault_plaintext_def stringify_item)
  then show ?thesis
    by (simp add: deserialize_def text_roundtrip [OF wf_item hd_item] parse_item)
qed

lemma get_blob_props:
  "get_prop (EncryptedData_to_js b) (js ''salt'') = Inr (Str (salt b))"
  "get_prop (EncryptedData_to_js b) (js ''iv'') = Inr (Str (iv b))"
  "get_prop (EncryptedData_to_js b) (js ''encrypted'') = Inr (Str (encrypted b))"
  by (simp_all add: EncryptedData_to_js_def js_def)

lemma decrypt_blob:
  assumes "arrayBufferToBase64 c = Inr e" "arrayBufferToBase64 s = Inr s64"
    "arrayBufferToBase64 n = Inr n64"
    and "aes_gcm_decrypt pf (deriveKey pf p s) n c = Some m"
  shows "decryptVaultItem pf (EncryptedData_to_js \<lparr>encrypted = e, salt = s64, iv = n64\<rparr>) p
           = deserialize m"
  unfolding decryptVaultItem_def get_blob_props
  using assms
  by (simp add: base64_roundtrip [OF assms(1)] base64_roundtrip [OF assms(2)]
      base64_roundtrip [OF assms(3)])

lemma encrypt_then_decrypt:
  assumes "cipher_round_trip pf (deriveKey pf p salt') iv' (vault_plaintext pf r)"
  shows "\<exists>blob. encryptVaultItem pf r p salt' iv' = Inr blob
           \<and> decryptVaultItem pf (EncryptedData_to_js blob) p = Inr (VaultItem_to_js r)"
proof -
  obtain c where enc: "aes_gcm_encrypt pf (deriveKey pf p salt') iv' (vault_plaintext pf r) = Some c"
    and dec: "aes_gcm_decrypt pf (deriveKey pf p salt') iv' c = Some (vault_plaintext pf r)"
    using assms by (auto simp: cipher_round_trip_def split: option.splits)
  let ?blob = "\<lparr>encrypted = map of_nat (b64_encode (map unat c)),
      salt = map of_nat (b64_encode (map unat salt')),
      iv = map of_nat (b64_encode (map unat iv'))\<rparr>"
  have e: "encryptVaultItem pf r p salt' iv' = Inr ?blob"
    by (simp add: encryptVaultItem_def enc arrayBufferToBase64_eq)
  have "decryptVaultItem pf (EncryptedData_to_js ?blob) p = deserialize (vault_plaintext pf r)"
    using arrayBufferToBase64_eq [of c] arrayBufferToBase64_eq [of salt']
      arrayBufferToBase64_eq [of iv'] dec
    by (rule decrypt_blob)
  then show ?thesis
    using e deserialize_plaintext by simp
qed

text \<open>
  C1. For every vault item, master password, salt and nonce on which the platform's cipher
  round-trips, encryption returns a blob, and decrypting that blob with the same password
  returns the object with the five fields of the item, each with the text it had: empty
  strings and every sequence of code units, lone surrogates included, come back unchanged.
\<close>

theorem encrypt_decrypt_round_trip:
  assumes "cipher_round_trip pf (deriveKey pf p salt') iv' (vault_plaintext pf r)"
  shows "\<exists>blob. encryptVaultItem pf r p salt' iv' = Inr blob
           \<and> decryptVaultItem pf (EncryptedData_to_js blob) p = Inr (VaultItem_to_js r)"
  using assms by (rule encrypt_then_decrypt)

lemma toy_cipher_round_trip: "cipher_round_trip toy_platform k n m"
  by (simp add: cipher_round_trip_def toy_platform_def)

theorem encrypt_decrypt_round_trip_witness:
  "cipher_round_trip toy_platform
     (deriveKey toy_platform (js ''correct horse battery'') [1, 2, 3]) [4, 5]
     (vault_plaintext toy_platform
        \<lparr>title = js ''Bank'', username = js ''alice'', password = js ''Tr0ub4dor&3xyz!'',
           url = js ''bank.example.com'', notes = []\<rparr>)
   \<and> (\<exists>blob. encryptVaultItem toy_platform
          \<lparr>title = js ''Bank'', username = js ''alice'', password = js ''Tr0ub4dor&3xyz!'',
             url = js ''bank.example.com'', notes = []\<rparr>
          (js ''correct horse battery'') [1, 2, 3] [4, 5] = Inr blob
        \<and> decryptVaultItem toy_platform (EncryptedData_to_js blob) (js ''correct horse battery'')
            = Inr (VaultItem_to_js
                \<lparr>title = js ''Bank'', username = js ''alice'', password = js ''Tr0ub4dor&3xyz!'',
                   url = js ''bank.example.com'', notes = []\<rparr>))"
  using encrypt_decrypt_round_trip [OF toy_cipher_round_trip] toy_cipher_round_trip
  by blast

section \<open>The round trip of an export\<close>

lemma serialize_blob:
  "serialize pf (js ''  '') (js ''    '') (EncryptedData_to_js b) = Some (blob_text b)"
  by (simp add: EncryptedData_to_js_def wrap_partial_def blob_text_def
      QuoteJSONString_def quote_ascii_keys) (simp add: js_def)

lemma serialize_blobs:
  "serialize_elements pf (js ''  '') (js ''    '') (map EncryptedData_to_js blobs)
     = map blob_text blobs"
  by (induction blobs) (simp_all add: serialize_blob)

lemma number_one_text: "number_to_string pf (Finite 1) = js ''1''"
proof -
  have "decimal_digits (Suc 0) = js ''1''"
    by (subst decimal_digits.simps) (simp add: js_def)
  then show ?thesis by (simp add: number_to_string_def)
qed

lemma stringify_container:
  "JSON_stringify_2 pf (Obj [(js ''version'', Num (Finite 1)), (js ''timestamp'', Str ts),
       (js ''items'', Arr (map EncryptedData_to_js blobs))])
     = Some (container_text ts blobs)"
proof -
  have a: "js ''  '' \<noteq> []" "[] @ js ''  '' = js ''  ''" "js ''  '' @ js ''  '' = js ''    ''"
    by (simp_all add: js_def)
  have items: "serialize pf (js ''  '') (js ''  '') (Arr (map EncryptedData_to_js blobs))
      = Some (items_text blobs)"
    by (simp add: a serialize_blobs wrap_partial_def items_text_def) (simp add: js_def)
  show ?thesis
    unfolding JSON_stringify_2_def
    by (simp add: a items number_one_text wrap_partial_def container_text_def
        QuoteJSONString_def quote_ascii_keys del: serialize.simps(6))
      (simp add: js_def)
qed

lemma parse_blob:
  "parse_value (blob_text b @ rest) = Some (EncryptedData_to_js b, rest)"
  by (simp add: blob_text_def QuoteJSONString_def js_def parse_quoted
      parse_string_chars.simps is_ws_def EncryptedData_to_js_def)

lemma skip_ws_blob: "skip_ws (blob_text b @ t) = blob_text b @ t"
  by (simp add: blob_text_def js_def is_ws_def)

lemma length_blob: "0 < length (blob_text b)"
  by (simp add: blob_text_def js_def)

lemma parse_blobs:
  "parse_elements ([0x0A] @ js ''    ''
       @ join (js '','' @ [0x0A] @ js ''    '') (map blob_text (b # bs))
       @ [0x0A] @ js ''  ]'' @ rest)
     = Some (map EncryptedData_to_js (b # bs), rest)"
proof (induction bs arbitrary: b)
  case Nil
  show ?case
    by (subst parse_elements.simps)
      (simp add: js_def is_ws_def skip_ws_blob parse_blob del: parse_value.simps)
next
  case (Cons b' bs)
  show ?case
    apply (subst parse_elements.simps)
    using Cons [of b'] length_blob [of b]
    apply (simp add: js_def is_ws_def skip_ws_blob parse_blob del: parse_value.simps)
    done
qed

lemma join_blobs_head:
  "\<exists>t. join sep (map blob_text (b # bs)) @ u = 0x7B # t"
  by (cases bs) (simp_all add: blob_text_def js_def)

lemma parse_items:
  "parse_value (items_text blobs @ rest) = Some (Arr (map EncryptedData_to_js blobs), rest)"
proof (cases blobs)
  case Nil
  then show ?thesis by (simp add: items_text_def js_def is_ws_def)
next
  case (Cons b bs)
  let ?tail = "join (js '','' @ [0x0A] @ js ''    '') (map blob_text (b # bs))
       @ [0x0A] @ js ''  ]'' @ rest"
  obtain t where t: "?tail = 0x7B # t"
    using join_blobs_head [of "js '','' @ [0x0A] @ js ''    ''" b bs "[0x0A] @ js ''  ]'' @ rest"]
    by blast
  have ws: "skip_ws ([0x0A] @ js ''    '' @ ?tail) = 0x7B # t"
    unfolding t by (simp add: js_def is_ws_def)
  have "parse_value (0x5B # ([0x0A] @ js ''    '' @ ?tail))
      = Some (Arr (map EncryptedData_to_js (b # bs)), rest)"
    by (subst parse_value.simps) (simp only: ws parse_blobs, simp)
  moreover have "items_text blobs @ rest = 0x5B # ([0x0A] @ js ''    '' @ ?tail)"
    by (simp add: items_text_def Cons js_def)
  ultimately show ?thesis by (simp only: Cons)
qed

lemma skip_ws_items: "skip_ws (items_text blobs @ t) = items_text blobs @ t"
  by (simp add: items_text_def js_def is_ws_def)

lemma length_items: "0 < length (items_text blobs)"
  by (simp add: items_text_def js_def)

lemma parse_container:
  "JSON_parse (container_text ts blobs)
     = Some (Obj [(js ''version'', Num (Finite 1)), (js ''timestamp'', Str ts),
          (js ''items'', Arr (map EncryptedData_to_js blobs))])"
proof -
  have one: "decimal_value False (Suc 0) 0 = Finite 1"
    by (simp add: decimal_value_def literal_number_zero_one)
  have m: "parse_members ([0x0A] @ js ''  \"items\": '' @ items_text blobs @ [0x0A] @ js ''}'')
      = Some ([(js ''items'', Arr (map EncryptedData_to_js blobs))], [])"
    using length_items [of blobs]
    by (subst parse_members.simps)
      (simp add: js_def is_ws_def parse_key [unfolded js_def, simplified]
        skip_ws_items parse_items del: parse_value.simps)
  define T3 where "T3 = [0x0A] @ js ''  \"items\": '' @ items_text blobs @ [0x0A] @ js ''}''"
  have m3: "parse_members T3
      = Some ([(js ''items'', Arr (map EncryptedData_to_js blobs))], [])"
    using m by (simp only: T3_def)
  define T2 where "T2 = [0x0A] @ js ''  \"timestamp\": '' @ QuoteJSONString ts @ js '','' @ T3"
  have m2: "parse_members T2
      = Some ([(js ''timestamp'', Str ts),
               (js ''items'', Arr (map EncryptedData_to_js blobs))], [])"
    unfolding T2_def
    by (subst parse_members.simps)
      (simp add: js_def is_ws_def parse_key [unfolded js_def, simplified]
        QuoteJSONString_def parse_quoted parse_string_chars.simps
        m3 [unfolded js_def] del: parse_members.simps)
  define T1 where "T1 = [0x0A] @ js ''  \"version\": 1,'' @ T2"
  have m1: "parse_members T1
      = Some ([(js ''version'', Num (Finite 1)), (js ''timestamp'', Str ts),
               (js ''items'', Arr (map EncryptedData_to_js blobs))], [])"
    unfolding T1_def
    by (subst parse_members.simps)
      (simp add: js_def is_ws_def parse_key [unfolded js_def, simplified]
        number_parse one m2 [unfolded js_def] del: parse_members.simps)
  have "container_text ts blobs = 0x7B # T1"
    by (simp add: container_text_def T1_def T2_def T3_def js_def)
  moreover have "skip_ws T1 = QUOTE # js ''version\": 1,'' @ T2"
    by (simp add: T1_def js_def is_ws_def)
  ultimately show ?thesis
    unfolding JSON_parse_def
    by (simp add: js_def is_ws_def m1 [unfolded js_def] del: parse_members.simps)
qed

lemma Promise_all_Inr_all:
  "(\<forall>r \<in> set rs. \<exists>x. r = Inr x) \<Longrightarrow> Promise_all rs = Inr (map projr rs)"
  by (induction rs) auto

lemma container_props:
  "get_prop (Obj [(js ''version'', Num (Finite 1)), (js ''timestamp'', Str ts),
       (js ''items'', Arr xs)]) (js ''version'') = Inr (Num (Finite 1))"
  "get_prop (Obj [(js ''version'', Num (Finite 1)), (js ''timestamp'', Str ts),
       (js ''items'', Arr xs)]) (js ''items'') = Inr (Arr xs)"
  by (simp_all add: js_def)

text \<open>
  C6. For every list of vault items, master password, timestamp and supply of salts and
  nonces on which the platform's cipher round-trips, the export encrypts item number n
  with the n-th salt and nonce, returns a text that parses to the container with
  version 1, the timestamp and the blobs in the order of the items, and the import of
  that text under the same password returns the original items in the original order.
\<close>

theorem export_import_round_trip:
  assumes "\<forall>n<length items. cipher_round_trip pf (deriveKey pf p (fst (rnd n)))
              (snd (rnd n)) (vault_plaintext pf (items ! n))"
  shows "\<exists>text blobs.
           Promise_all (map (\<lambda>n. encryptVaultItem pf (items ! n) p (fst (rnd n)) (snd (rnd n)))
               [0..<length items]) = Inr blobs
         \<and> exportVaultData pf items p ts rnd = Inr text
         \<and> JSON_parse text
             = Some (Obj [(js ''version'', Num (Finite 1)), (js ''timestamp'', Str ts),
                  (js ''items'', Arr (map EncryptedData_to_js blobs))])
         \<and> importVaultData pf text p = Inr (map VaultItem_to_js items)"
proof -
  let ?enc = "\<lambda>n. encryptVaultItem pf (items ! n) p (fst (rnd n)) (snd (rnd n))"
  let ?rs = "map ?enc [0..<length items]"
  have each: "\<exists>blob. ?enc n = Inr blob
      \<and> decryptVaultItem pf (EncryptedData_to_js blob) p = Inr (VaultItem_to_js (items ! n))"
    if "n < length items" for n
    using assms that by (intro encrypt_then_decrypt) simp
  define blobs where "blobs = map projr ?rs"
  have "\<forall>r \<in> set ?rs. \<exists>x. r = Inr x"
  proof
    fix r assume "r \<in> set ?rs"
    then obtain n where n: "n < length items" and r: "r = ?enc n" by auto
    from each [OF n] obtain blob where "?enc n = Inr blob" by blast
    with r show "\<exists>x. r = Inr x" by simp
  qed
  then have all: "Promise_all ?rs = Inr blobs"
    unfolding blobs_def by (rule Promise_all_Inr_all)
  have len: "length blobs = length items"
    by (simp add: blobs_def)
  have dec: "decryptVaultItem pf (EncryptedData_to_js (blobs ! n)) p
      = Inr (VaultItem_to_js (items ! n))" if "n < length items" for n
  proof -
    from each [OF that] obtain blob where b: "?enc n = Inr blob"
      and d: "decryptVaultItem pf (EncryptedData_to_js blob) p = Inr (VaultItem_to_js (items ! n))"
      by blast
    have "blobs ! n = blob"
      using that b by (simp add: blobs_def)
    with d show ?thesis by simp
  qed
  have decs: "map (\<lambda>x. decryptVaultItem pf x p) (map EncryptedData_to_js blobs)
      = map Inr (map VaultItem_to_js items)"
    by (rule nth_equalityI) (simp_all add: len dec)
  have exp: "exportVaultData pf items p ts rnd = Inr (container_text ts blobs)"
    by (simp add: exportVaultData_def all stringify_container)
  have "Promise_all (map (\<lambda>x. decryptVaultItem pf x p) (map EncryptedData_to_js blobs))
      = Inr (map VaultItem_to_js items)"
    by (simp only: decs Promise_all_map_Inr)
  then have "import_body pf (container_text ts blobs) p = Inr (map VaultItem_to_js items)"
    using import_body_checked [OF parse_container container_props, of pf ts blobs p]
    by simp
  then have "importVaultData pf (container_text ts blobs) p = Inr (map VaultItem_to_js items)"
    by (simp add: importVaultData_def)
  with all exp parse_container show ?thesis by blast
qed

theorem export_import_round_trip_witness:
  "cipher_round_trip toy_platform
     (deriveKey toy_platform (js ''correct horse battery'') [0, 2]) [3, 0]
     (vault_plaintext toy_platform
        \<lparr>title = js ''Bank'', username = js ''alice'', password = js ''Tr0ub4dor&3xyz!'',
           url = js ''bank.example.com'', notes = []\<rparr>)
   \<and> cipher_round_trip toy_platform
     (deriveKey toy_platform (js ''correct horse battery'') [1, 2]) [3, 1]
     (vault_plaintext toy_platform
        \<lparr>title = js ''Mail'', username = js ''bob'', password = js ''s3cret'',
           url = [], notes = js ''second''\<rparr>)
   \<and> (\<exists>text. exportVaultData toy_platform
          [\<lparr>title = js ''Bank'', username = js ''alice'', password = js ''Tr0ub4dor&3xyz!'',
             url = js ''bank.example.com'', notes = []\<rparr>,
           \<lparr>title = js ''Mail'', username = js ''bob'', password = js ''s3cret'',
             url = [], notes = js ''second''\<rparr>]
          (js ''correct horse battery'') (js ''2024-01-01T00:00:00.000Z'')
          (\<lambda>n. ([of_nat n, 2], [3, of_nat n])) = Inr text
        \<and> importVaultData toy_platform text (js ''correct horse battery'')
            = Inr (map VaultItem_to_js
                [\<lparr>title = js ''Bank'', username = js ''alice'', password = js ''Tr0ub4dor&3xyz!'',
                   url = js ''bank.example.com'', notes = []\<rparr>,
                 \<lparr>title = js ''Mail'', username = js ''bob'', password = js ''s3cret'',
                   url = [], notes = js ''second''\<rparr>]))"
proof -
  have h: "\<forall>n<length items. cipher_round_trip toy_platform
      (deriveKey toy_platform p (fst ([of_nat n, 2], [3, of_nat n])))
      (snd ([of_nat n, 2], [3, of_nat n])) (vault_plaintext toy_platform (items ! n))"
    for items p
    by (simp add: toy_cipher_round_trip)
  show ?thesis
    using export_import_round_trip [OF h, of _ _ "js ''2024-01-01T00:00:00.000Z''"]
      toy_cipher_round_trip
    by blast
qed

end
